theory Spec2Isabelle
  imports Complex_Main "HOL-Library.Sublist"
begin

section \<open>JavaScript strings and errors\<close>

text \<open>
  The service \<^verbatim>\<open>src/services/api/fileProcessingService.js\<close> works on JavaScript
  strings. A string is modelled as a \<^typ>\<open>string\<close>, one \<^typ>\<open>char\<close> per UTF-16 code unit
  (code units above 255 are not represented); \<^verbatim>\<open>s.length\<close> is \<^term>\<open>length s\<close>.
  A thrown \<^verbatim>\<open>new Error(msg)\<close> is the value \<open>Inl (Error msg)\<close> of a sum type, a
  returned value is \<open>Inr v\<close>.
\<close>

datatype error = Error (message: string)

text \<open>
  \<^verbatim>\<open>String.prototype.toLowerCase\<close> on the code units a \<^typ>\<open>char\<close> holds: the letters A to
  Z and the capital letters of Latin-1 (\<open>0xC0\<close> to \<open>0xDE\<close> without the multiplication
  sign \<open>0xD7\<close>) move to their small letters, \<open>0x20\<close> further on; every other code unit
  up to 255 is left as it is.
\<close>

definition upper_case_letters :: string where
  "upper_case_letters =
     ''ABCDEFGHIJKLMNOPQRSTUVWXYZ'' @
     [CHR 0xC0, CHR 0xC1, CHR 0xC2, CHR 0xC3, CHR 0xC4, CHR 0xC5, CHR 0xC6, CHR 0xC7,
      CHR 0xC8, CHR 0xC9, CHR 0xCA, CHR 0xCB, CHR 0xCC, CHR 0xCD, CHR 0xCE, CHR 0xCF,
      CHR 0xD0, CHR 0xD1, CHR 0xD2, CHR 0xD3, CHR 0xD4, CHR 0xD5, CHR 0xD6, CHR 0xD8,
      CHR 0xD9, CHR 0xDA, CHR 0xDB, CHR 0xDC, CHR 0xDD, CHR 0xDE]"

definition lower_case_letters :: string where
  "lower_case_letters =
     ''abcdefghijklmnopqrstuvwxyz'' @
     [CHR 0xE0, CHR 0xE1, CHR 0xE2, CHR 0xE3, CHR 0xE4, CHR 0xE5, CHR 0xE6, CHR 0xE7,
      CHR 0xE8, CHR 0xE9, CHR 0xEA, CHR 0xEB, CHR 0xEC, CHR 0xED, CHR 0xEE, CHR 0xEF,
      CHR 0xF0, CHR 0xF1, CHR 0xF2, CHR 0xF3, CHR 0xF4, CHR 0xF5, CHR 0xF6, CHR 0xF8,
      CHR 0xF9, CHR 0xFA, CHR 0xFB, CHR 0xFC, CHR 0xFD, CHR 0xFE]"

definition toLowerCase_char :: "char \<Rightarrow> char" where
  "toLowerCase_char ch =
     (case map_of (zip upper_case_letters lower_case_letters) ch of
        Some l \<Rightarrow> l
      | None \<Rightarrow> ch)"

definition toLowerCase :: "string \<Rightarrow> string" where
  "toLowerCase s = map toLowerCase_char s"

text \<open>\<^verbatim>\<open>s.lastIndexOf(ch)\<close>: the last index holding \<open>ch\<close>, or \<open>-1\<close>.\<close>

definition lastIndexOf :: "string \<Rightarrow> char \<Rightarrow> int" where
  "lastIndexOf s ch =
     (case filter (\<lambda>i. s ! i = ch) (rev [0..<length s]) of
        [] \<Rightarrow> - 1
      | i # _ \<Rightarrow> int i)"

text \<open>\<^verbatim>\<open>s.slice(start)\<close>: a negative start counts from the end.\<close>

definition slice :: "string \<Rightarrow> int \<Rightarrow> string" where
  "slice s start =
     (let n = int (length s);
          k = (if start < 0 then max (n + start) 0 else min start n)
      in drop (nat k) s)"

text \<open>
  \<^verbatim>\<open>s.substring(a, b)\<close>: both indices are clamped to \<open>0..length\<close> (so a negative
  one is \<open>0\<close>) and swapped when \<open>a > b\<close>.
\<close>

definition substring :: "string \<Rightarrow> int \<Rightarrow> int \<Rightarrow> string" where
  "substring s a b =
     (let n = int (length s);
          a' = min (max a 0) n;
          b' = min (max b 0) n;
          lo = min a' b';
          hi = max a' b'
      in take (nat (hi - lo)) (drop (nat lo) s))"

text \<open>
  A non-negative integer inside a template literal (\<^verbatim>\<open>`${n}`\<close>): its decimal digits.
  (JavaScript switches to exponent notation from \<open>10\<^sup>2\<^sup>1\<close> on; no count of files or
  sheets held in memory gets there.)
\<close>

definition digit_char :: "nat \<Rightarrow> char" where
  "digit_char d = ''0123456789'' ! d"

function toString_nat :: "nat \<Rightarrow> string" where
  "toString_nat n =
     (if n < 10 then [digit_char n] else toString_nat (n div 10) @ [digit_char (n mod 10)])"
  by pat_completeness auto
termination
  by (relation "measure id") auto

declare toString_nat.simps [simp del]

text \<open>\<^verbatim>\<open>Array.prototype.join(sep)\<close> on an array of strings.\<close>

fun join :: "string \<Rightarrow> string list \<Rightarrow> string" where
  "join sep [] = []"
| "join sep [x] = x"
| "join sep (x # y # zs) = x @ sep @ join sep (y # zs)"

definition newline :: string where
  "newline = [CHR 0x0A]"

section \<open>Validator\<close>

text \<open>
  A browser \<^verbatim>\<open>File\<close>: its name, declared media type and byte size, and as
  \<open>file_content\<close> what \<^verbatim>\<open>FileReader\<close> and the spreadsheet codec make of its bytes (used
  by the analyzer only). The validator's \<^verbatim>\<open>await delay(...)\<close> calls only pass time; no
  clock is read, so they are left out here.
\<close>

datatype 'w file_content = Unreadable | Undecodable | Decoded 'w

record 'w js_file =
  file_name :: string
  file_type :: string
  file_size :: nat
  file_content :: "'w file_content"

definition validTypes :: "string list" where
  "validTypes =
     [''application/vnd.openxmlformats-officedocument.spreadsheetml.sheet'',
      ''application/vnd.ms-excel'']"

definition validExtensions :: "string list" where
  "validExtensions = [''.xlsx'', ''.xls'']"

definition validateFile :: "'w js_file \<Rightarrow> error + bool" where
  "validateFile file =
     (let fileExtension =
            slice (toLowerCase (file_name file)) (lastIndexOf (file_name file) CHR ''.'')
      in if file_type file \<notin> set validTypes \<and> fileExtension \<notin> set validExtensions
         then Inl (Error ''Please upload a valid Excel file (.xlsx or .xls)'')
         else if file_size file > 50 * 1024 * 1024
         then Inl (Error ''File size must be less than 50MB'')
         else Inr True)"

text \<open>
  The loop of \<^verbatim>\<open>validateMultipleFiles\<close>: every file is checked, and each caught
  error adds the line \<^verbatim>\<open>`${files[i].name}: ${error.message}`\<close> to \<open>errors\<close>.
\<close>

fun validateMultipleFiles_loop :: "'w js_file list \<Rightarrow> string list \<Rightarrow> string list" where
  "validateMultipleFiles_loop [] errors = errors"
| "validateMultipleFiles_loop (file # files) errors =
     (case validateFile file of
        Inl err \<Rightarrow>
          validateMultipleFiles_loop files (errors @ [file_name file @ '': '' @ message err])
      | Inr _ \<Rightarrow> validateMultipleFiles_loop files errors)"

definition validateMultipleFiles :: "'w js_file list \<Rightarrow> error + bool" where
  "validateMultipleFiles files =
     (let errors = validateMultipleFiles_loop files []
      in if length errors > 0
         then Inl (Error (''Validation failed for '' @ toString_nat (length errors)
                @ '' file(s):'' @ newline @ join newline errors))
         else Inr True)"

text \<open>The line the batch check reports for one file, if that file fails.\<close>

definition failure_line :: "'w js_file \<Rightarrow> string option" where
  "failure_line file =
     (case validateFile file of
        Inl err \<Rightarrow> Some (file_name file @ '': '' @ message err)
      | Inr _ \<Rightarrow> None)"

text \<open>Three files for the examples: a wrong extension, a good file, an oversized one.\<close>

definition example_files :: "unit js_file list" where
  "example_files =
     [\<lparr>file_name = ''a.txt'', file_type = '''', file_size = 3, file_content = Unreadable\<rparr>,
      \<lparr>file_name = ''b.xlsx'', file_type = '''', file_size = 3, file_content = Unreadable\<rparr>,
      \<lparr>file_name = ''c.xls'', file_type = ''application/vnd.ms-excel'',
        file_size = 60000000, file_content = Unreadable\<rparr>]"

subsection \<open>Batch validation aggregates every failure\<close>

lemma validateMultipleFiles_loop_eq:
  "validateMultipleFiles_loop files errors = errors @ List.map_filter failure_line files"
  by (induction files arbitrary: errors)
     (auto simp: failure_line_def List.map_filter_simps split: sum.splits)

lemma join_sublist: "x \<in> set xs \<Longrightarrow> sublist x (join sep xs)"
  by (induction sep xs rule: join.induct) (auto simp: sublist_append)

lemma set_map_filter: "set (List.map_filter g xs) = {y. \<exists>x \<in> set xs. g x = Some y}"
  by (induction xs) (auto simp: List.map_filter_simps split: option.splits)

lemma sublist_prepend: "sublist x y \<Longrightarrow> sublist x (p @ y)"
  unfolding sublist_def by (metis append.assoc)

lemma failure_line_Some:
  "failure_line f = Some y \<longleftrightarrow>
     (\<exists>e. validateFile f = Inl e \<and> y = file_name f @ '': '' @ message e)"
  by (cases "validateFile f") (auto simp: failure_line_def)

lemma validateMultipleFiles_eq:
  "validateMultipleFiles files =
     (if List.map_filter failure_line files = [] then Inr True
      else Inl (Error (''Validation failed for ''
            @ toString_nat (length (List.map_filter failure_line files))
            @ '' file(s):'' @ newline @ join newline (List.map_filter failure_line files))))"
  by (simp add: validateMultipleFiles_def validateMultipleFiles_loop_eq Let_def)

text \<open>
  Claim C4. \<^verbatim>\<open>validateMultipleFiles\<close> checks every file: it throws exactly when some
  file fails \<^verbatim>\<open>validateFile\<close>, and returns \<open>true\<close> when none does. The one error it
  throws carries the count of failing files and, in input order, one line
  \<^verbatim>\<open>name: message\<close> for each failing file, so every failing file's name (with its own
  error message) occurs in the reported message, not only the first one's.
\<close>

theorem validateMultipleFiles_aggregates:
  "((\<exists>err. validateMultipleFiles files = Inl err) \<longleftrightarrow>
      (\<exists>f \<in> set files. \<exists>e. validateFile f = Inl e))
   \<and> ((\<forall>f \<in> set files. validateFile f = Inr True) \<longrightarrow> validateMultipleFiles files = Inr True)
   \<and> (\<forall>err. validateMultipleFiles files = Inl err \<longrightarrow>
        message err = ''Validation failed for ''
            @ toString_nat (length (List.map_filter failure_line files))
            @ '' file(s):'' @ newline @ join newline (List.map_filter failure_line files)
        \<and> (\<forall>f \<in> set files. \<forall>e. validateFile f = Inl e \<longrightarrow>
              sublist (file_name f @ '': '' @ message e) (message err)))"
proof -
  define lines where "lines = List.map_filter failure_line files"
  define msg where "msg = ''Validation failed for '' @ toString_nat (length lines)
            @ '' file(s):'' @ newline @ join newline lines"
  have eq: "validateMultipleFiles files = (if lines = [] then Inr True else Inl (Error msg))"
    unfolding lines_def msg_def by (rule validateMultipleFiles_eq)
  have mem: "file_name f @ '': '' @ message e \<in> set lines"
    if "f \<in> set files" "validateFile f = Inl e" for f e
    using that by (auto simp: lines_def set_map_filter failure_line_Some)
  have nonempty: "lines \<noteq> [] \<longleftrightarrow> (\<exists>f \<in> set files. \<exists>e. validateFile f = Inl e)"
  proof
    assume "lines \<noteq> []"
    then obtain y where "y \<in> set lines" by (cases lines) auto
    then show "\<exists>f \<in> set files. \<exists>e. validateFile f = Inl e"
      by (auto simp: lines_def set_map_filter failure_line_Some)
  next
    assume "\<exists>f \<in> set files. \<exists>e. validateFile f = Inl e"
    then show "lines \<noteq> []" using mem by fastforce
  qed
  have a: "(\<exists>err. validateMultipleFiles files = Inl err) \<longleftrightarrow>
      (\<exists>f \<in> set files. \<exists>e. validateFile f = Inl e)"
    using nonempty by (cases "lines = []") (simp_all add: eq)
  have b: "(\<forall>f \<in> set files. validateFile f = Inr True) \<longrightarrow> validateMultipleFiles files = Inr True"
  proof
    assume all: "\<forall>f \<in> set files. validateFile f = Inr True"
    have "lines = []"
    proof (rule ccontr)
      assume "lines \<noteq> []"
      with nonempty obtain f e where "f \<in> set files" "validateFile f = Inl e" by blast
      with all show False by simp
    qed
    then show "validateMultipleFiles files = Inr True" by (simp add: eq)
  qed
  have c: "\<forall>err. validateMultipleFiles files = Inl err \<longrightarrow>
        message err = msg
        \<and> (\<forall>f \<in> set files. \<forall>e. validateFile f = Inl e \<longrightarrow>
              sublist (file_name f @ '': '' @ message e) (message err))"
  proof (intro allI impI)
    fix err
    assume err: "validateMultipleFiles files = Inl err"
    then have m: "message err = msg"
      by (cases "lines = []") (auto simp: eq)
    have "sublist (file_name f @ '': '' @ message e) (message err)"
      if "f \<in> set files" "validateFile f = Inl e" for f e
    proof -
      have "sublist (file_name f @ '': '' @ message e) (join newline lines)"
        using mem [OF that] by (rule join_sublist)
      then show ?thesis
        unfolding m msg_def by (intro sublist_prepend)
    qed
    with m show "message err = msg
        \<and> (\<forall>f \<in> set files. \<forall>e. validateFile f = Inl e \<longrightarrow>
              sublist (file_name f @ '': '' @ message e) (message err))"
      by blast
  qed
  from a b c show ?thesis
    unfolding msg_def lines_def by (intro conjI)
qed

lemma example_files_validateFile:
  "validateFile (example_files ! 0) = Inl (Error ''Please upload a valid Excel file (.xlsx or .xls)'')"
  "validateFile (example_files ! 1) = Inr True"
  "validateFile (example_files ! 2) = Inl (Error ''File size must be less than 50MB'')"
  by (simp_all add: example_files_def validateFile_def validTypes_def validExtensions_def
      slice_def toLowerCase_def toLowerCase_char_def upper_case_letters_def lower_case_letters_def lastIndexOf_def upt_rec)

lemma example_files_validateMultipleFiles:
  "validateMultipleFiles example_files =
     Inl (Error (''Validation failed for 2 file(s):'' @ newline
       @ ''a.txt: Please upload a valid Excel file (.xlsx or .xls)'' @ newline
       @ ''c.xls: File size must be less than 50MB''))"
  by (simp add: example_files_def validateMultipleFiles_def validateFile_def validTypes_def
      validExtensions_def slice_def toLowerCase_def toLowerCase_char_def upper_case_letters_def lower_case_letters_def lastIndexOf_def
      upt_rec toString_nat.simps digit_char_def newline_def)

theorem validateMultipleFiles_aggregates_witness:
  "validateMultipleFiles example_files =
     Inl (Error (''Validation failed for 2 file(s):'' @ newline
       @ ''a.txt: Please upload a valid Excel file (.xlsx or .xls)'' @ newline
       @ ''c.xls: File size must be less than 50MB''))
   \<and> sublist ''a.txt: Please upload a valid Excel file (.xlsx or .xls)''
        (''Validation failed for 2 file(s):'' @ newline
       @ ''a.txt: Please upload a valid Excel file (.xlsx or .xls)'' @ newline
       @ ''c.xls: File size must be less than 50MB'')
   \<and> sublist ''c.xls: File size must be less than 50MB''
        (''Validation failed for 2 file(s):'' @ newline
       @ ''a.txt: Please upload a valid Excel file (.xlsx or .xls)'' @ newline
       @ ''c.xls: File size must be less than 50MB'')"
proof -
  let ?msg = "''Validation failed for 2 file(s):'' @ newline
       @ ''a.txt: Please upload a valid Excel file (.xlsx or .xls)'' @ newline
       @ ''c.xls: File size must be less than 50MB''"
  have run: "validateMultipleFiles example_files = Inl (Error ?msg)"
    by (rule example_files_validateMultipleFiles)
  have in0: "example_files ! 0 \<in> set example_files"
    and in2: "example_files ! 2 \<in> set example_files"
    by (simp_all add: example_files_def)
  have names: "file_name (example_files ! 0) = ''a.txt''" "file_name (example_files ! 2) = ''c.xls''"
    by (simp_all add: example_files_def)
  from validateMultipleFiles_aggregates [of example_files] run
  have all: "\<forall>f \<in> set example_files. \<forall>e. validateFile f = Inl e \<longrightarrow>
          sublist (file_name f @ '': '' @ message e) ?msg"
    by (metis error.sel)
  from all in0 example_files_validateFile(1)
  have "sublist (file_name (example_files ! 0) @ '': ''
          @ message (Error ''Please upload a valid Excel file (.xlsx or .xls)'')) ?msg"
    by blast
  then have s0: "sublist ''a.txt: Please upload a valid Excel file (.xlsx or .xls)'' ?msg"
    by (simp add: names)
  from all in2 example_files_validateFile(3)
  have "sublist (file_name (example_files ! 2) @ '': ''
          @ message (Error ''File size must be less than 50MB'')) ?msg"
    by blast
  then have s2: "sublist ''c.xls: File size must be less than 50MB'' ?msg"
    by (simp add: names)
  from run s0 s2 show ?thesis by (intro conjI)
qed

section \<open>Analyzer\<close>

text \<open>
  The workbook that \<^verbatim>\<open>XLSX.read\<close> decodes. The codec is an external library, so a
  sheet is modelled by what the service uses of it: its declared used range
  \<^verbatim>\<open>sheet['!ref']\<close> (absent, or a string such as \<^verbatim>\<open>A1:C5\<close>) and its grid of cells,
  row by row, each cell a JavaScript value (a string, a number, \<^verbatim>\<open>NaN\<close>, a boolean or
  \<^verbatim>\<open>null\<close>).
\<close>

datatype cell_value =
    CellString string
  | CellNumber rat
  | CellNaN
  | CellBoolean bool
  | CellNull

record sheet =
  ref :: "string option"
  rows :: "cell_value list list"

text \<open>
  The object \<^verbatim>\<open>workbook.Sheets\<close>: its own properties in insertion order, each holding a
  sheet or \<^verbatim>\<open>undefined\<close> (\<open>None\<close>). \<open>get_sheet\<close> reads the sheet stored under a name;
  the codec stores one under every name of \<^verbatim>\<open>SheetNames\<close>. A name that the object does
  not own reads \<^verbatim>\<open>undefined\<close> here. (JavaScript would look such a name up in
  \<^verbatim>\<open>Object.prototype\<close>; the merge loop, which does test names that the object may not
  own, is modelled with that lookup, see \<open>has_sheet\<close>.)
\<close>

type_synonym sheets_object = "(string \<times> sheet option) list"

record workbook =
  SheetNames :: "string list"
  Sheets :: sheets_object

definition get_sheet :: "sheets_object \<Rightarrow> string \<Rightarrow> sheet option" where
  "get_sheet obj key = (case map_of obj key of Some v \<Rightarrow> v | None \<Rightarrow> None)"

text \<open>
  \<^verbatim>\<open>obj[key] = v\<close>: an existing property keeps its place, a new one is added last.
\<close>

fun set_sheet :: "sheets_object \<Rightarrow> string \<Rightarrow> sheet option \<Rightarrow> sheets_object" where
  "set_sheet [] key v = [(key, v)]"
| "set_sheet ((k, w) # obj) key v =
     (if k = key then (k, v) # obj else (k, w) # set_sheet obj key v)"

text \<open>
  A decoded range \<^verbatim>\<open>{ s: { c, r }, e: { c, r } }\<close> with zero-based column and row
  indices. \<^verbatim>\<open>XLSX.utils.decode_range\<close> belongs to the codec: the analyzer takes it as the
  parameter \<open>decode_range\<close>.
\<close>

datatype cell_address = CellAddress (addr_c: int) (addr_r: int)

datatype cell_range = CellRange (range_s: cell_address) (range_e: cell_address)

record worksheet =
  ws_name :: string
  ws_index :: nat
  rowCount :: int
  columnCount :: int
  hasData :: bool

record file_info =
  Id :: nat
  info_name :: string
  info_size :: nat
  uploadTime :: nat
  status :: string

record analysis =
  file' :: file_info
  worksheets :: "worksheet list"
  workbook :: workbook

text \<open>
  The wall clock. \<^verbatim>\<open>Date.now()\<close> reads \<open>now\<close> (milliseconds). Every \<^verbatim>\<open>await\<close> lets
  time pass: \<^verbatim>\<open>await delay(ms)\<close> resumes no earlier than \<open>ms\<close> later, and how much
  later is the environment's choice, taken from the list \<open>lags\<close> (nothing extra once the
  list is used up). Awaiting any other promise is \<open>delay 0\<close>.
\<close>

record clock =
  now :: nat
  lags :: "nat list"

definition delay :: "nat \<Rightarrow> clock \<Rightarrow> clock" where
  "delay ms c =
     \<lparr>now = now c + ms + (case lags c of [] \<Rightarrow> 0 | l # _ \<Rightarrow> l), lags = tl (lags c)\<rparr>"

text \<open>
  The callback of \<^verbatim>\<open>workbook.SheetNames.map\<close> in \<^verbatim>\<open>analyzeWorkbook\<close>. A name without a
  sheet makes \<^verbatim>\<open>sheet['!ref']\<close> throw a \<^verbatim>\<open>TypeError\<close>: the result \<open>None\<close>.
  \<^verbatim>\<open>sheet['!ref'] || 'A1:A1'\<close> takes the default for a missing and for an empty string.
\<close>

definition declared :: "string option \<Rightarrow> bool" where
  "declared r = (case r of None \<Rightarrow> False | Some s \<Rightarrow> s \<noteq> [])"

definition worksheet_of ::
  "(string \<Rightarrow> cell_range) \<Rightarrow> workbook \<Rightarrow> string \<Rightarrow> nat \<Rightarrow> worksheet option" where
  "worksheet_of decode_range wb name index =
     (case get_sheet (Sheets wb) name of
        None \<Rightarrow> None
      | Some sheet \<Rightarrow>
          (let range = decode_range (if declared (ref sheet) then the (ref sheet) else ''A1:A1'')
           in Some \<lparr>ws_name = name, ws_index = index,
                    rowCount = addr_r (range_e range) + 1,
                    columnCount = addr_c (range_e range) + 1,
                    hasData = declared (ref sheet)\<rparr>))"

fun map_index :: "('a \<Rightarrow> nat \<Rightarrow> 'b option) \<Rightarrow> 'a list \<Rightarrow> nat \<Rightarrow> 'b list option" where
  "map_index g [] i = Some []"
| "map_index g (x # xs) i =
     (case g x i of
        None \<Rightarrow> None
      | Some y \<Rightarrow> (case map_index g xs (Suc i) of None \<Rightarrow> None | Some ys \<Rightarrow> Some (y # ys)))"

text \<open>
  \<^verbatim>\<open>analyzeWorkbook\<close>. The file's \<open>file_content\<close> says what \<^verbatim>\<open>FileReader\<close> and
  \<^verbatim>\<open>XLSX.read\<close> make of it: \<open>Unreadable\<close> fires \<^verbatim>\<open>onerror\<close>, \<open>Undecodable\<close> makes
  \<^verbatim>\<open>XLSX.read\<close> throw inside \<^verbatim>\<open>onload\<close>, \<open>Decoded wb\<close> is the decoded workbook.
  \<^verbatim>\<open>uploadTime\<close> is kept as the clock reading it is formatted from.
\<close>

definition analyzeWorkbook ::
  "(string \<Rightarrow> cell_range) \<Rightarrow> workbook js_file \<Rightarrow> clock \<Rightarrow> (error + analysis) \<times> clock" where
  "analyzeWorkbook decode_range f c0 =
     (let c1 = delay 300 c0;
          c2 = delay 0 c1
      in case file_content f of
           Unreadable \<Rightarrow> (Inl (Error ''Failed to read file''), c2)
         | Undecodable \<Rightarrow>
             (Inl (Error ''Failed to read Excel file. Please ensure it is not corrupted.''), c2)
         | Decoded wb \<Rightarrow>
             (case map_index (worksheet_of decode_range wb) (SheetNames wb) 0 of
                None \<Rightarrow>
                  (Inl (Error ''Failed to read Excel file. Please ensure it is not corrupted.''), c2)
              | Some ws \<Rightarrow>
                  (Inr \<lparr>file' = \<lparr>Id = now c2, info_name = file_name f, info_size = file_size f,
                                uploadTime = now c2, status = ''analyzed''\<rparr>,
                        worksheets = ws, workbook = wb\<rparr>, c2)))"

text \<open>
  The loop of \<^verbatim>\<open>analyzeMultipleWorkbooks\<close>: \<open>fileIndex\<close> counts the files done and
  \<open>results\<close> collects their analyses; a rejected analysis is rethrown with the file's
  name and ends the loop.
\<close>

fun analyzeMultipleWorkbooks_loop ::
  "(string \<Rightarrow> cell_range) \<Rightarrow> workbook js_file list \<Rightarrow> nat \<Rightarrow> analysis list \<Rightarrow> clock
     \<Rightarrow> (error + analysis list) \<times> clock" where
  "analyzeMultipleWorkbooks_loop decode_range [] fileIndex results c = (Inr results, c)"
| "analyzeMultipleWorkbooks_loop decode_range (f # files) fileIndex results c =
     (case analyzeWorkbook decode_range f c of
        (Inl err, c1) \<Rightarrow>
          (Inl (Error (''Failed to analyze '' @ file_name f @ '': '' @ message err)), delay 0 c1)
      | (Inr a, c1) \<Rightarrow>
          (let c2 = delay 0 c1;
               a' = a\<lparr>file' := (file' a)\<lparr>Id := now c2 + fileIndex\<rparr>\<rparr>
           in analyzeMultipleWorkbooks_loop decode_range files (Suc fileIndex) (results @ [a']) c2))"

definition analyzeMultipleWorkbooks ::
  "(string \<Rightarrow> cell_range) \<Rightarrow> workbook js_file list \<Rightarrow> clock
     \<Rightarrow> (error + analysis list) \<times> clock" where
  "analyzeMultipleWorkbooks decode_range files c =
     analyzeMultipleWorkbooks_loop decode_range files 0 [] (delay 500 c)"

text \<open>
  Data for the examples: a workbook with a sheet of five rows and three columns and a
  sheet without a declared range, a decoder that knows the two ranges used, the file
  that decodes to the workbook, and a clock at zero that adds no lag.
\<close>

definition example_workbook :: workbook where
  "example_workbook =
     \<lparr>SheetNames = [''Data'', ''Empty''],
      Sheets = [(''Data'', Some \<lparr>ref = Some ''A1:C5'', rows = []\<rparr>),
                (''Empty'', Some \<lparr>ref = None, rows = []\<rparr>)]\<rparr>"

definition example_decode_range :: "string \<Rightarrow> cell_range" where
  "example_decode_range s =
     (if s = ''A1:C5'' then CellRange (CellAddress 0 0) (CellAddress 2 4)
      else CellRange (CellAddress 0 0) (CellAddress 0 0))"

definition example_book :: "workbook js_file" where
  "example_book =
     \<lparr>file_name = ''report.xlsx'', file_type = '''', file_size = 1024,
      file_content = Decoded example_workbook\<rparr>"

definition clock0 :: clock where
  "clock0 = \<lparr>now = 0, lags = []\<rparr>"

subsection \<open>Worksheet metadata\<close>

lemma map_index_Some:
  "map_index g xs i = Some ys \<Longrightarrow>
     length ys = length xs \<and> (\<forall>j < length xs. g (xs ! j) (i + j) = Some (ys ! j))"
proof (induction xs arbitrary: i ys)
  case Nil
  then show ?case by simp
next
  case (Cons x xs)
  from Cons.prems obtain y ys' where y: "g x i = Some y"
    and ys': "map_index g xs (Suc i) = Some ys'" and ys: "ys = y # ys'"
    by (auto split: option.splits)
  from Cons.IH [OF ys'] have len: "length ys' = length xs"
    and nth: "\<forall>j < length xs. g (xs ! j) (Suc i + j) = Some (ys' ! j)" by auto
  show ?case
  proof (intro conjI allI impI)
    show "length ys = length (x # xs)" using len ys by simp
  next
    fix j assume "j < length (x # xs)"
    then show "g ((x # xs) ! j) (i + j) = Some (ys ! j)"
      using y nth ys by (cases j) auto
  qed
qed

lemma analyzeWorkbook_Inr:
  assumes "analyzeWorkbook d f c = (Inr a, c')"
  shows "file_content f = Decoded (workbook a)"
    and "map_index (worksheet_of d (workbook a)) (SheetNames (workbook a)) 0 = Some (worksheets a)"
    and "info_name (file' a) = file_name f"
    and "c' = delay 0 (delay 300 c)"
    and "Id (file' a) = now c'"
  using assms
  by (auto simp: analyzeWorkbook_def Let_def split: file_content.splits option.splits)

text \<open>
  The extent of a declared range as the specification's sentence reads: the number of
  rows and the number of columns that the range spans, from its first cell to its last.
  These two definitions follow the specification, not the source; they are what the
  counts of \<^verbatim>\<open>analyzeWorkbook\<close> are compared with.
\<close>

definition spec_extent_rows :: "cell_range \<Rightarrow> int" where
  "spec_extent_rows r = addr_r (range_e r) - addr_r (range_s r) + 1"

definition spec_extent_columns :: "cell_range \<Rightarrow> int" where
  "spec_extent_columns r = addr_c (range_e r) - addr_c (range_s r) + 1"

text \<open>
  A workbook whose only sheet declares the range \<^verbatim>\<open>B2:D7\<close>, which does not start at
  cell A1, a decoder that knows this range (column B and row 2 have index 1, column D
  index 3, row 7 index 6), and the file that decodes to the workbook.
\<close>

definition offset_workbook :: workbook where
  "offset_workbook =
     \<lparr>SheetNames = [''Offset''],
      Sheets = [(''Offset'', Some \<lparr>ref = Some ''B2:D7'', rows = []\<rparr>)]\<rparr>"

definition offset_decode_range :: "string \<Rightarrow> cell_range" where
  "offset_decode_range s =
     (if s = ''B2:D7'' then CellRange (CellAddress 1 1) (CellAddress 3 6)
      else CellRange (CellAddress 0 0) (CellAddress 0 0))"

definition offset_book :: "workbook js_file" where
  "offset_book =
     \<lparr>file_name = ''offset.xlsx'', file_type = '''', file_size = 1024,
      file_content = Decoded offset_workbook\<rparr>"

text \<open>
  Claim C7 says that a worksheet with a declared used range gets row and column counts
  equal to the declared extent. The sheet with the range \<^verbatim>\<open>B2:D7\<close> spans 6 rows and 3
  columns, and \<^verbatim>\<open>analyzeWorkbook\<close> reports \<open>rowCount = 7\<close> and \<open>columnCount = 4\<close>: the
  counts are \<^verbatim>\<open>range.e.r + 1\<close> and \<^verbatim>\<open>range.e.c + 1\<close>, which never look at the first cell
  \<^verbatim>\<open>range.s\<close> of the range.
\<close>

theorem analyzeWorkbook_counts_not_extent:
  "analyzeWorkbook offset_decode_range offset_book clock0 =
     (Inr \<lparr>file' = \<lparr>Id = 300, info_name = ''offset.xlsx'', info_size = 1024,
                   uploadTime = 300, status = ''analyzed''\<rparr>,
           worksheets =
             [\<lparr>ws_name = ''Offset'', ws_index = 0, rowCount = 7, columnCount = 4,
               hasData = True\<rparr>],
           workbook = offset_workbook\<rparr>,
      \<lparr>now = 300, lags = []\<rparr>)
   \<and> get_sheet (Sheets offset_workbook) ''Offset'' = Some \<lparr>ref = Some ''B2:D7'', rows = []\<rparr>
   \<and> offset_decode_range ''B2:D7'' = CellRange (CellAddress 1 1) (CellAddress 3 6)
   \<and> spec_extent_rows (offset_decode_range ''B2:D7'') = 6
   \<and> spec_extent_columns (offset_decode_range ''B2:D7'') = 3
   \<and> (7 :: int) \<noteq> spec_extent_rows (offset_decode_range ''B2:D7'')
   \<and> (4 :: int) \<noteq> spec_extent_columns (offset_decode_range ''B2:D7'')"
  by (simp add: analyzeWorkbook_def offset_book_def offset_workbook_def clock0_def delay_def
      worksheet_of_def get_sheet_def declared_def offset_decode_range_def
      spec_extent_rows_def spec_extent_columns_def)

text \<open>
  Claim C7, amended. When \<^verbatim>\<open>analyzeWorkbook\<close> resolves, the analysis holds the workbook
  decoded from the file, and its worksheets are the workbook's sheet names in their
  declared order, each with its position as index. A worksheet with no declared used
  range has \<open>rowCount = 1\<close>, \<open>columnCount = 1\<close> and \<open>hasData = false\<close> (given that the
  codec decodes \<^verbatim>\<open>A1:A1\<close> to the single cell in row 0 and column 0). A worksheet with a
  declared used range has \<open>hasData = true\<close>, and its \<open>rowCount\<close> is the zero-based index
  of the range's last row plus one and its \<open>columnCount\<close> the zero-based index of the
  range's last column plus one: the number of rows and columns from cell A1 to the last
  cell of the range, wherever the range starts. So the counts are the declared extent
  plus the number of rows above the range and of columns left of it; they equal the
  declared extent exactly when the range starts at cell A1.
\<close>

theorem analyzeWorkbook_worksheets:
  assumes run: "analyzeWorkbook decode_range f c = (Inr a, c')"
    and a1: "decode_range ''A1:A1'' = CellRange (CellAddress 0 0) (CellAddress 0 0)"
  shows "file_content f = Decoded (workbook a)
     \<and> map ws_name (worksheets a) = SheetNames (workbook a)
     \<and> map ws_index (worksheets a) = [0..<length (SheetNames (workbook a))]
     \<and> (\<forall>i < length (worksheets a).
          \<exists>sh. get_sheet (Sheets (workbook a)) (SheetNames (workbook a) ! i) = Some sh
            \<and> (if declared (ref sh)
                then hasData (worksheets a ! i)
                  \<and> rowCount (worksheets a ! i) = addr_r (range_e (decode_range (the (ref sh)))) + 1
                  \<and> columnCount (worksheets a ! i) = addr_c (range_e (decode_range (the (ref sh)))) + 1
                  \<and> rowCount (worksheets a ! i) =
                      spec_extent_rows (decode_range (the (ref sh)))
                        + addr_r (range_s (decode_range (the (ref sh))))
                  \<and> columnCount (worksheets a ! i) =
                      spec_extent_columns (decode_range (the (ref sh)))
                        + addr_c (range_s (decode_range (the (ref sh))))
                else \<not> hasData (worksheets a ! i)
                  \<and> rowCount (worksheets a ! i) = 1
                  \<and> columnCount (worksheets a ! i) = 1))"
proof -
  let ?wb = "workbook a" and ?ws = "worksheets a"
  let ?names = "SheetNames ?wb"
  from analyzeWorkbook_Inr(2) [OF run]
  have "map_index (worksheet_of decode_range ?wb) ?names 0 = Some ?ws" .
  from map_index_Some [OF this]
  have len: "length ?ws = length ?names"
    and nth: "\<And>j. j < length ?names \<Longrightarrow> worksheet_of decode_range ?wb (?names ! j) j = Some (?ws ! j)"
    by auto
  have each: "\<exists>sh. get_sheet (Sheets ?wb) (?names ! i) = Some sh
        \<and> ws_name (?ws ! i) = ?names ! i \<and> ws_index (?ws ! i) = i
        \<and> (if declared (ref sh)
            then hasData (?ws ! i)
              \<and> rowCount (?ws ! i) = addr_r (range_e (decode_range (the (ref sh)))) + 1
              \<and> columnCount (?ws ! i) = addr_c (range_e (decode_range (the (ref sh)))) + 1
              \<and> rowCount (?ws ! i) =
                  spec_extent_rows (decode_range (the (ref sh)))
                    + addr_r (range_s (decode_range (the (ref sh))))
              \<and> columnCount (?ws ! i) =
                  spec_extent_columns (decode_range (the (ref sh)))
                    + addr_c (range_s (decode_range (the (ref sh))))
            else \<not> hasData (?ws ! i) \<and> rowCount (?ws ! i) = 1 \<and> columnCount (?ws ! i) = 1)"
    if "i < length ?names" for i
  proof -
    from nth [OF that] obtain sh where sh: "get_sheet (Sheets ?wb) (?names ! i) = Some sh"
      and w: "?ws ! i =
        \<lparr>ws_name = ?names ! i, ws_index = i,
         rowCount = addr_r (range_e (decode_range
            (if declared (ref sh) then the (ref sh) else ''A1:A1''))) + 1,
         columnCount = addr_c (range_e (decode_range
            (if declared (ref sh) then the (ref sh) else ''A1:A1''))) + 1,
         hasData = declared (ref sh)\<rparr>"
      by (auto simp: worksheet_of_def Let_def split: option.splits)
    show ?thesis
      by (rule exI [of _ sh]) (simp add: sh w a1 spec_extent_rows_def spec_extent_columns_def)
  qed
  have meta: "ws_name (?ws ! i) = ?names ! i" "ws_index (?ws ! i) = i"
    if "i < length ?names" for i
    using each [OF that] by auto
  have names: "map ws_name ?ws = ?names"
    by (rule nth_equalityI) (simp_all add: len meta)
  have idx: "map ws_index ?ws = [0..<length ?names]"
    by (rule nth_equalityI) (simp_all add: len meta)
  from each len
  have "\<forall>i < length ?ws.
          \<exists>sh. get_sheet (Sheets ?wb) (?names ! i) = Some sh
            \<and> (if declared (ref sh)
                then hasData (?ws ! i)
                  \<and> rowCount (?ws ! i) = addr_r (range_e (decode_range (the (ref sh)))) + 1
                  \<and> columnCount (?ws ! i) = addr_c (range_e (decode_range (the (ref sh)))) + 1
                  \<and> rowCount (?ws ! i) =
                      spec_extent_rows (decode_range (the (ref sh)))
                        + addr_r (range_s (decode_range (the (ref sh))))
                  \<and> columnCount (?ws ! i) =
                      spec_extent_columns (decode_range (the (ref sh)))
                        + addr_c (range_s (decode_range (the (ref sh))))
                else \<not> hasData (?ws ! i) \<and> rowCount (?ws ! i) = 1 \<and> columnCount (?ws ! i) = 1)"
    by (metis (no_types, lifting))
  with analyzeWorkbook_Inr(1) [OF run] names idx show ?thesis by (intro conjI)
qed


lemma example_book_analysis:
  "analyzeWorkbook example_decode_range example_book clock0 =
     (Inr \<lparr>file' = \<lparr>Id = 300, info_name = ''report.xlsx'', info_size = 1024,
                   uploadTime = 300, status = ''analyzed''\<rparr>,
           worksheets =
             [\<lparr>ws_name = ''Data'', ws_index = 0, rowCount = 5, columnCount = 3, hasData = True\<rparr>,
              \<lparr>ws_name = ''Empty'', ws_index = 1, rowCount = 1, columnCount = 1, hasData = False\<rparr>],
           workbook = example_workbook\<rparr>,
      \<lparr>now = 300, lags = []\<rparr>)"
  by (simp add: analyzeWorkbook_def example_book_def example_workbook_def clock0_def delay_def
      worksheet_of_def get_sheet_def declared_def example_decode_range_def)

theorem analyzeWorkbook_worksheets_witness:
  "(\<exists>a c'. analyzeWorkbook example_decode_range example_book clock0 = (Inr a, c')
      \<and> file_content example_book = Decoded (workbook a)
      \<and> map ws_name (worksheets a) = [''Data'', ''Empty'']
      \<and> map ws_index (worksheets a) = [0, 1]
      \<and> map hasData (worksheets a) = [True, False]
      \<and> map rowCount (worksheets a) = [5, 1]
      \<and> map columnCount (worksheets a) = [3, 1])
   \<and> example_decode_range ''A1:A1'' = CellRange (CellAddress 0 0) (CellAddress 0 0)"
proof -
  have a1: "example_decode_range ''A1:A1'' = CellRange (CellAddress 0 0) (CellAddress 0 0)"
    by (simp add: example_decode_range_def)
  note run = example_book_analysis
  from analyzeWorkbook_worksheets [OF run a1]
  have "map ws_name [\<lparr>ws_name = ''Data'', ws_index = 0, rowCount = 5, columnCount = 3, hasData = True\<rparr>,
              \<lparr>ws_name = ''Empty'', ws_index = 1, rowCount = 1, columnCount = 1, hasData = False\<rparr>]
          = SheetNames example_workbook"
    by simp
  with run a1 show ?thesis
    by (simp add: example_workbook_def example_book_def)
qed

subsection \<open>Batch analysis is fail-fast\<close>

lemma analyzeWorkbook_clock:
  "snd (analyzeWorkbook d f c) = delay 0 (delay 300 c)"
  by (simp add: analyzeWorkbook_def Let_def split: file_content.splits option.splits)

lemma analyzeWorkbook_Inl_any_clock:
  "fst (analyzeWorkbook d f c) = Inl e \<Longrightarrow> fst (analyzeWorkbook d f c') = Inl e"
  by (auto simp: analyzeWorkbook_def Let_def split: file_content.splits option.splits)

lemma analyzeWorkbook_Inr_any_clock:
  "fst (analyzeWorkbook d f c) = Inr a \<Longrightarrow> \<exists>a'. fst (analyzeWorkbook d f c') = Inr a'"
  by (auto simp: analyzeWorkbook_def Let_def split: file_content.splits option.splits)

lemma analyzeMultipleWorkbooks_loop_fails:
  assumes pre: "\<forall>g \<in> set pre. \<exists>a. fst (analyzeWorkbook d g c0) = Inr a"
    and f: "fst (analyzeWorkbook d f c0) = Inl e"
  shows "fst (analyzeMultipleWorkbooks_loop d (pre @ f # post) k results c) =
           Inl (Error (''Failed to analyze '' @ file_name f @ '': '' @ message e))"
  using pre
proof (induction pre arbitrary: k results c)
  case Nil
  from analyzeWorkbook_Inl_any_clock [OF f, of c]
  obtain c1 where "analyzeWorkbook d f c = (Inl e, c1)"
    by (cases "analyzeWorkbook d f c") auto
  then show ?case by simp
next
  case (Cons g pre)
  from Cons.prems obtain a0 where "fst (analyzeWorkbook d g c0) = Inr a0" by auto
  from analyzeWorkbook_Inr_any_clock [OF this, of c]
  obtain a c1 where g: "analyzeWorkbook d g c = (Inr a, c1)"
    by (cases "analyzeWorkbook d g c") auto
  from Cons.prems have "\<forall>g \<in> set pre. \<exists>a. fst (analyzeWorkbook d g c0) = Inr a" by simp
  from Cons.IH [OF this] show ?case
    by (simp add: g Let_def)
qed

lemma analyzeMultipleWorkbooks_loop_stops:
  assumes f: "fst (analyzeWorkbook d f c0) = Inl e"
  shows "analyzeMultipleWorkbooks_loop d (pre @ f # post) k results c =
           analyzeMultipleWorkbooks_loop d (pre @ [f]) k results c"
proof (induction pre arbitrary: k results c)
  case Nil
  from analyzeWorkbook_Inl_any_clock [OF f, of c]
  obtain c1 where "analyzeWorkbook d f c = (Inl e, c1)"
    by (cases "analyzeWorkbook d f c") auto
  then show ?case by simp
next
  case (Cons g pre)
  show ?case
  proof (cases "analyzeWorkbook d g c")
    case (Pair r c1)
    then show ?thesis
      by (cases r) (simp_all add: Cons.IH Let_def)
  qed
qed

lemma analyzeMultipleWorkbooks_loop_succeeds:
  assumes "\<forall>g \<in> set files. \<exists>a. fst (analyzeWorkbook d g c0) = Inr a"
  shows "\<exists>rs. fst (analyzeMultipleWorkbooks_loop d files k results c) = Inr (results @ rs)
            \<and> map (info_name \<circ> file') rs = map file_name files"
  using assms
proof (induction files arbitrary: k results c)
  case Nil
  then show ?case by simp
next
  case (Cons g files)
  from Cons.prems obtain a0 where "fst (analyzeWorkbook d g c0) = Inr a0" by auto
  from analyzeWorkbook_Inr_any_clock [OF this, of c]
  obtain a c1 where g: "analyzeWorkbook d g c = (Inr a, c1)"
    by (cases "analyzeWorkbook d g c") auto
  have name: "info_name (file' a) = file_name g"
    using g by (auto simp: analyzeWorkbook_def Let_def split: file_content.splits option.splits)
  define a' where "a' = a\<lparr>file' := (file' a)\<lparr>Id := now (delay 0 c1) + k\<rparr>\<rparr>"
  from Cons.prems have "\<forall>g \<in> set files. \<exists>a. fst (analyzeWorkbook d g c0) = Inr a" by simp
  from Cons.IH [OF this, of "Suc k" "results @ [a']" "delay 0 c1"]
  obtain rs where rs: "fst (analyzeMultipleWorkbooks_loop d files (Suc k) (results @ [a']) (delay 0 c1))
        = Inr ((results @ [a']) @ rs)"
    and names: "map (info_name \<circ> file') rs = map file_name files" by blast
  have "fst (analyzeMultipleWorkbooks_loop d (g # files) k results c) = Inr (results @ (a' # rs))"
    using rs by (simp add: g Let_def a'_def)
  moreover have "map (info_name \<circ> file') (a' # rs) = map file_name (g # files)"
    using names name by (simp add: a'_def)
  ultimately show ?case by blast
qed

text \<open>
  Claim C5. \<^verbatim>\<open>analyzeMultipleWorkbooks\<close> takes the files in input order. When the
  files before \<open>f\<close> analyze and \<open>f\<close> is rejected with error \<open>e\<close>, the batch throws
  \<^verbatim>\<open>Failed to analyze <name of f>: <message of e>\<close>: no result list is returned, the
  message contains the file's name, and the files after \<open>f\<close> are never looked at (the
  outcome and the clock are those of the batch cut off after \<open>f\<close>). When every file
  analyzes, the batch returns one analysis per file, in input order. (Whether a file
  analyzes does not depend on the clock, so it is stated at an arbitrary clock \<open>c0\<close>.)
\<close>

theorem analyzeMultipleWorkbooks_fail_fast:
  "(files = pre @ f # post
      \<and> (\<forall>g \<in> set pre. \<exists>a. fst (analyzeWorkbook d g c0) = Inr a)
      \<and> fst (analyzeWorkbook d f c0) = Inl e
    \<longrightarrow> fst (analyzeMultipleWorkbooks d files c) =
          Inl (Error (''Failed to analyze '' @ file_name f @ '': '' @ message e))
      \<and> sublist (file_name f)
          (''Failed to analyze '' @ file_name f @ '': '' @ message e)
      \<and> analyzeMultipleWorkbooks d files c = analyzeMultipleWorkbooks d (pre @ [f]) c)
   \<and> ((\<forall>g \<in> set files. \<exists>a. fst (analyzeWorkbook d g c0) = Inr a)
    \<longrightarrow> (\<exists>rs. fst (analyzeMultipleWorkbooks d files c) = Inr rs
          \<and> map (info_name \<circ> file') rs = map file_name files))"
proof (intro conjI impI)
  assume h: "files = pre @ f # post
      \<and> (\<forall>g \<in> set pre. \<exists>a. fst (analyzeWorkbook d g c0) = Inr a)
      \<and> fst (analyzeWorkbook d f c0) = Inl e"
  then have files: "files = pre @ f # post"
    and pre: "\<forall>g \<in> set pre. \<exists>a. fst (analyzeWorkbook d g c0) = Inr a"
    and f: "fst (analyzeWorkbook d f c0) = Inl e" by auto
  from analyzeMultipleWorkbooks_loop_fails [OF pre f, of post 0 "[]" "delay 500 c"]
  show "fst (analyzeMultipleWorkbooks d files c) =
          Inl (Error (''Failed to analyze '' @ file_name f @ '': '' @ message e))"
    by (simp add: analyzeMultipleWorkbooks_def files)
  from analyzeMultipleWorkbooks_loop_stops [OF f, of pre post 0 "[]" "delay 500 c"]
  show "analyzeMultipleWorkbooks d files c = analyzeMultipleWorkbooks d (pre @ [f]) c"
    by (simp add: analyzeMultipleWorkbooks_def files)
  show "sublist (file_name f) (''Failed to analyze '' @ file_name f @ '': '' @ message e)"
    by (rule sublist_appendI)
next
  assume "\<forall>g \<in> set files. \<exists>a. fst (analyzeWorkbook d g c0) = Inr a"
  from analyzeMultipleWorkbooks_loop_succeeds [OF this, of 0 "[]" "delay 500 c"]
  show "\<exists>rs. fst (analyzeMultipleWorkbooks d files c) = Inr rs
          \<and> map (info_name \<circ> file') rs = map file_name files"
    by (simp add: analyzeMultipleWorkbooks_def)
qed

definition example_corrupt :: "workbook js_file" where
  "example_corrupt =
     \<lparr>file_name = ''B.xlsx'', file_type = '''', file_size = 7, file_content = Undecodable\<rparr>"

lemma example_corrupt_analysis:
  "fst (analyzeWorkbook example_decode_range example_corrupt clock0) =
     Inl (Error ''Failed to read Excel file. Please ensure it is not corrupted.'')"
  by (simp add: analyzeWorkbook_def example_corrupt_def)

theorem analyzeMultipleWorkbooks_fail_fast_witness:
  "fst (analyzeMultipleWorkbooks example_decode_range
          [example_book, example_corrupt, example_book] clock0) =
     Inl (Error (''Failed to analyze B.xlsx: ''
        @ ''Failed to read Excel file. Please ensure it is not corrupted.''))
   \<and> sublist ''B.xlsx'' (''Failed to analyze B.xlsx: ''
        @ ''Failed to read Excel file. Please ensure it is not corrupted.'')
   \<and> analyzeMultipleWorkbooks example_decode_range
          [example_book, example_corrupt, example_book] clock0 =
       analyzeMultipleWorkbooks example_decode_range [example_book, example_corrupt] clock0
   \<and> (\<exists>rs. fst (analyzeMultipleWorkbooks example_decode_range
                  [example_book, example_book] clock0) = Inr rs
          \<and> map (info_name \<circ> file') rs = [''report.xlsx'', ''report.xlsx''])"
proof -
  let ?e = "Error ''Failed to read Excel file. Please ensure it is not corrupted.''"
  let ?files = "[example_book, example_corrupt, example_book]"
  have ok: "\<exists>a. fst (analyzeWorkbook example_decode_range example_book clock0) = Inr a"
    by (simp add: example_book_analysis)
  have name: "file_name example_corrupt = ''B.xlsx''" "file_name example_book = ''report.xlsx''"
    by (simp_all add: example_corrupt_def example_book_def)
  have split: "?files = [example_book] @ example_corrupt # [example_book]"
    by simp
  have pre: "\<forall>g \<in> set [example_book].
      \<exists>a. fst (analyzeWorkbook example_decode_range g clock0) = Inr a"
    using ok by simp
  note inst = analyzeMultipleWorkbooks_fail_fast
    [of ?files "[example_book]" example_corrupt "[example_book]" example_decode_range clock0
        ?e clock0]
  from inst split pre example_corrupt_analysis
  have r1: "fst (analyzeMultipleWorkbooks example_decode_range ?files clock0) =
      Inl (Error (''Failed to analyze '' @ file_name example_corrupt @ '': '' @ message ?e))"
    and r2: "sublist (file_name example_corrupt)
      (''Failed to analyze '' @ file_name example_corrupt @ '': '' @ message ?e)"
    and r3: "analyzeMultipleWorkbooks example_decode_range ?files clock0 =
      analyzeMultipleWorkbooks example_decode_range ([example_book] @ [example_corrupt]) clock0"
    by blast+
  have all: "\<forall>g \<in> set [example_book, example_book].
      \<exists>a. fst (analyzeWorkbook example_decode_range g clock0) = Inr a"
    using ok by simp
  from analyzeMultipleWorkbooks_fail_fast
    [of "[example_book, example_book]" "[]" example_corrupt "[]" example_decode_range clock0
        ?e clock0] all
  have r4: "\<exists>rs. fst (analyzeMultipleWorkbooks example_decode_range
                  [example_book, example_book] clock0) = Inr rs
          \<and> map (info_name \<circ> file') rs = map file_name [example_book, example_book]"
    by blast
  show ?thesis
  proof (intro conjI)
    from r1 show "fst (analyzeMultipleWorkbooks example_decode_range ?files clock0) =
      Inl (Error (''Failed to analyze B.xlsx: ''
        @ ''Failed to read Excel file. Please ensure it is not corrupted.''))"
      by (simp add: name)
    from r2 show "sublist ''B.xlsx'' (''Failed to analyze B.xlsx: ''
        @ ''Failed to read Excel file. Please ensure it is not corrupted.'')"
      by (simp add: name)
    from r3 show "analyzeMultipleWorkbooks example_decode_range ?files clock0 =
       analyzeMultipleWorkbooks example_decode_range [example_book, example_corrupt] clock0"
      by simp
    from r4 show "\<exists>rs. fst (analyzeMultipleWorkbooks example_decode_range
                  [example_book, example_book] clock0) = Inr rs
          \<and> map (info_name \<circ> file') rs = [''report.xlsx'', ''report.xlsx'']"
      by (simp add: name)
  qed
qed

subsection \<open>Identifiers within a session\<close>

text \<open>
  A session is a sequence of calls to the analyzer, each awaited before the next is
  made. \<open>session_analyses\<close> collects the analyses the calls return (a rejected call
  returns none) and \<open>session_ids\<close> their identifiers.
\<close>

datatype call =
    CallAnalyzeWorkbook "workbook js_file"
  | CallAnalyzeMultipleWorkbooks "workbook js_file list"

fun session_analyses :: "(string \<Rightarrow> cell_range) \<Rightarrow> call list \<Rightarrow> clock \<Rightarrow> analysis list" where
  "session_analyses d [] c = []"
| "session_analyses d (CallAnalyzeWorkbook f # calls) c =
     (case analyzeWorkbook d f c of
        (Inl _, c1) \<Rightarrow> session_analyses d calls (delay 0 c1)
      | (Inr a, c1) \<Rightarrow> a # session_analyses d calls (delay 0 c1))"
| "session_analyses d (CallAnalyzeMultipleWorkbooks files # calls) c =
     (case analyzeMultipleWorkbooks d files c of
        (Inl _, c1) \<Rightarrow> session_analyses d calls (delay 0 c1)
      | (Inr results, c1) \<Rightarrow> results @ session_analyses d calls (delay 0 c1))"

definition session_ids :: "(string \<Rightarrow> cell_range) \<Rightarrow> call list \<Rightarrow> clock \<Rightarrow> nat list" where
  "session_ids d calls c = map (\<lambda>a. Id (file' a)) (session_analyses d calls c)"

lemma delay_no_lag: "lags c = [] \<Longrightarrow> delay ms c = \<lparr>now = now c + ms, lags = []\<rparr>"
  by (simp add: delay_def)

lemma example_book_analysis_at:
  "analyzeWorkbook example_decode_range example_book \<lparr>now = t, lags = []\<rparr> =
     (Inr \<lparr>file' = \<lparr>Id = t + 300, info_name = ''report.xlsx'', info_size = 1024,
                   uploadTime = t + 300, status = ''analyzed''\<rparr>,
           worksheets =
             [\<lparr>ws_name = ''Data'', ws_index = 0, rowCount = 5, columnCount = 3, hasData = True\<rparr>,
              \<lparr>ws_name = ''Empty'', ws_index = 1, rowCount = 1, columnCount = 1, hasData = False\<rparr>],
           workbook = example_workbook\<rparr>,
      \<lparr>now = t + 300, lags = []\<rparr>)"
  by (simp add: analyzeWorkbook_def example_book_def example_workbook_def delay_def
      worksheet_of_def get_sheet_def declared_def example_decode_range_def)

lemma batch_of_example_book:
  "\<exists>rs. analyzeMultipleWorkbooks_loop example_decode_range (replicate n example_book) k results
            \<lparr>now = t, lags = []\<rparr>
          = (Inr (results @ rs), \<lparr>now = t + 300 * n, lags = []\<rparr>)
        \<and> map (\<lambda>a. Id (file' a)) rs = map (\<lambda>i. t + 300 * (i + 1) + k + i) [0..<n]"
proof (induction n arbitrary: k results t)
  case 0
  then show ?case by simp
next
  case (Suc n)
  define a where "a = \<lparr>file' = \<lparr>Id = t + 300 + k, info_name = ''report.xlsx'', info_size = 1024,
                   uploadTime = t + 300, status = ''analyzed''\<rparr>,
           worksheets =
             [\<lparr>ws_name = ''Data'', ws_index = 0, rowCount = 5, columnCount = 3, hasData = True\<rparr>,
              \<lparr>ws_name = ''Empty'', ws_index = 1, rowCount = 1, columnCount = 1, hasData = False\<rparr>],
           workbook = example_workbook\<rparr>"
  from Suc.IH [of "Suc k" "results @ [a]" "t + 300"]
  obtain rs where run: "analyzeMultipleWorkbooks_loop example_decode_range (replicate n example_book)
        (Suc k) (results @ [a]) \<lparr>now = t + 300, lags = []\<rparr>
          = (Inr ((results @ [a]) @ rs), \<lparr>now = t + 300 + 300 * n, lags = []\<rparr>)"
    and ids: "map (\<lambda>a. Id (file' a)) rs = map (\<lambda>i. t + 300 + 300 * (i + 1) + Suc k + i) [0..<n]"
    by blast
  have step: "analyzeMultipleWorkbooks_loop example_decode_range (replicate (Suc n) example_book)
        k results \<lparr>now = t, lags = []\<rparr>
      = (Inr (results @ (a # rs)), \<lparr>now = t + 300 * Suc n, lags = []\<rparr>)"
    using run by (simp add: example_book_analysis_at delay_def a_def)
  have "map (\<lambda>a. Id (file' a)) (a # rs) = map (\<lambda>i. t + 300 * (i + 1) + k + i) [0..<Suc n]"
    unfolding map_upt_Suc using ids by (simp add: a_def)
  with step show ?case by blast
qed

text \<open>
  Within one batch the identifiers do increase strictly, whatever the lags: the clock
  never goes back and the index grows.
\<close>

lemma now_delay: "now c + ms \<le> now (delay ms c)"
  by (simp add: delay_def)

lemma analyzeMultipleWorkbooks_loop_ids:
  assumes "analyzeMultipleWorkbooks_loop d files k results c = (Inr rs, c')"
    and "\<forall>a \<in> set results. Id (file' a) < now c + k"
    and "sorted_wrt (<) (map (\<lambda>a. Id (file' a)) results)"
  shows "sorted_wrt (<) (map (\<lambda>a. Id (file' a)) rs)"
  using assms
proof (induction files arbitrary: k results c)
  case Nil
  then show ?case by simp
next
  case (Cons f files)
  obtain r c1 where run: "analyzeWorkbook d f c = (r, c1)" by (cases "analyzeWorkbook d f c")
  with Cons.prems(1) obtain a where r: "r = Inr a" by (cases r) auto
  from run have "c1 = delay 0 (delay 300 c)"
    using analyzeWorkbook_clock [of d f c] by simp
  then have c1: "now c + 300 \<le> now c1"
    using now_delay [of "delay 300 c" 0] now_delay [of c 300] by simp
  define c2 where "c2 = delay 0 c1"
  define a' where "a' = a\<lparr>file' := (file' a)\<lparr>Id := now c2 + k\<rparr>\<rparr>"
  have c2: "now c1 \<le> now c2" using now_delay [of c1 0] by (simp add: c2_def)
  from Cons.prems(1) have loop: "analyzeMultipleWorkbooks_loop d files (Suc k) (results @ [a']) c2
      = (Inr rs, c')"
    by (simp add: run r Let_def c2_def a'_def)
  have id: "Id (file' a') = now c2 + k" by (simp add: a'_def)
  have below: "\<forall>a \<in> set (results @ [a']). Id (file' a) < now c2 + Suc k"
    using Cons.prems(2) c1 c2 id by auto
  have "\<forall>a \<in> set results. Id (file' a) < Id (file' a')"
    using Cons.prems(2) c1 c2 id by auto
  with Cons.prems(3) have "sorted_wrt (<) (map (\<lambda>a. Id (file' a)) (results @ [a']))"
    by (simp add: sorted_wrt_append)
  from Cons.IH [OF loop below this] show ?case .
qed

lemma analyzeMultipleWorkbooks_ids_distinct:
  assumes "analyzeMultipleWorkbooks d files c = (Inr rs, c')"
  shows "distinct (map (\<lambda>a. Id (file' a)) rs)"
proof -
  from assms have "analyzeMultipleWorkbooks_loop d files 0 [] (delay 500 c) = (Inr rs, c')"
    by (simp add: analyzeMultipleWorkbooks_def)
  from analyzeMultipleWorkbooks_loop_ids [OF this]
  have "sorted_wrt (<) (map (\<lambda>a. Id (file' a)) rs)" by simp
  then show ?thesis by (simp add: strict_sorted_iff)
qed

text \<open>
  Claim C6 says that the identifiers of all analyses of a session are pairwise distinct.
  The identifier of the file at position \<open>i\<close> of a batch is \<^verbatim>\<open>Date.now() + i\<close>, so a
  long batch runs ahead of the clock: with no lag, the last file of a batch of 801 files
  that starts at time 0 gets 240800 + 800 = 241600, and the first file of the next batch,
  whose two delays end at 240800 + 500 + 300, gets 241600 as well.
\<close>

theorem analysis_ids_collide:
  "\<not> distinct (session_ids example_decode_range
       [CallAnalyzeMultipleWorkbooks (replicate 801 example_book),
        CallAnalyzeMultipleWorkbooks [example_book]] clock0)"
proof -
  from batch_of_example_book [of 801 0 "[]" 500]
  obtain rs where run1: "analyzeMultipleWorkbooks_loop example_decode_range
        (replicate 801 example_book) 0 [] \<lparr>now = 500, lags = []\<rparr>
          = (Inr rs, \<lparr>now = 240800, lags = []\<rparr>)"
    and ids1: "map (\<lambda>a. Id (file' a)) rs = map (\<lambda>i. 500 + 300 * (i + 1) + 0 + i) [0..<801]"
    by auto
  from batch_of_example_book [of 1 0 "[]" 241300]
  obtain rs' where run2: "analyzeMultipleWorkbooks_loop example_decode_range
        [example_book] 0 [] \<lparr>now = 241300, lags = []\<rparr>
          = (Inr rs', \<lparr>now = 241600, lags = []\<rparr>)"
    and ids2: "map (\<lambda>a. Id (file' a)) rs' = [241600]"
    by auto
  have ids: "session_ids example_decode_range
       [CallAnalyzeMultipleWorkbooks (replicate 801 example_book),
        CallAnalyzeMultipleWorkbooks [example_book]] clock0
      = map (\<lambda>i. 500 + 300 * (i + 1) + 0 + i) [0..<801] @ [241600]"
    using ids1 ids2
    by (simp add: session_ids_def analyzeMultipleWorkbooks_def clock0_def delay_def run1 run2
        del: analyzeMultipleWorkbooks_loop.simps)
  have "(241600::nat) \<in> set (map (\<lambda>i. 500 + 300 * (i + 1) + 0 + i) [0..<801])"
    by (simp add: image_iff)
  then show ?thesis unfolding ids by simp
qed

section \<open>Combiner\<close>

subsection \<open>Sheet names\<close>

text \<open>
  \<^verbatim>\<open>analysis.file.name.replace(/\.[^/.]+$/, '')\<close>: the pattern matches a dot followed by
  one or more characters that are neither a slash nor a dot, up to the end of the name.
  Such a match can only start at the last dot, so the last dot and what follows it are
  removed when the rest is not empty and holds no slash; otherwise the name is unchanged.
\<close>

definition fileBaseName :: "string \<Rightarrow> string" where
  "fileBaseName name =
     (let i = lastIndexOf name CHR ''.''
      in if i < 0 then name
         else (let ext = drop (nat i + 1) name
               in if ext \<noteq> [] \<and> CHR ''/'' \<notin> set ext then take (nat i) name else name))"

text \<open>
  The candidate name \<^verbatim>\<open>`${fileBaseName}_${worksheet.name}`\<close> and its truncation to
  Excel's limit of 31 characters, which shortens the file name only.
\<close>

definition newSheetName :: "string \<Rightarrow> string \<Rightarrow> string" where
  "newSheetName base name =
     (let candidate = base @ ''_'' @ name
      in if length candidate > 31
         then (let maxFileNameLength = 31 - int (length name) - 1;
                   truncatedFileName = substring base 0 maxFileNameLength
               in truncatedFileName @ ''_'' @ name)
         else candidate)"

text \<open>
  \<^verbatim>\<open>XLSX.utils.book_new()\<close> gives \<^verbatim>\<open>{ SheetNames: [], Sheets: {} }\<close>. \<^verbatim>\<open>Sheets\<close> is a
  plain object, so reading a key it does not own falls through to \<^verbatim>\<open>Object.prototype\<close>,
  whose members are all truthy. The loop test \<^verbatim>\<open>combinedWorkbook.Sheets[finalSheetName]\<close>
  is therefore true for an own property holding a sheet, false for an own property
  holding \<^verbatim>\<open>undefined\<close>, and true for an inherited key.
\<close>

definition book_new :: workbook where
  "book_new = \<lparr>SheetNames = [], Sheets = []\<rparr>"

definition object_prototype_keys :: "string list" where
  "object_prototype_keys =
     [''constructor'', ''__defineGetter__'', ''__defineSetter__'', ''hasOwnProperty'',
      ''__lookupGetter__'', ''__lookupSetter__'', ''isPrototypeOf'', ''propertyIsEnumerable'',
      ''toString'', ''valueOf'', ''__proto__'', ''toLocaleString'']"

definition has_sheet :: "sheets_object \<Rightarrow> string \<Rightarrow> bool" where
  "has_sheet obj key =
     (case map_of obj key of
        Some v \<Rightarrow> v \<noteq> None
      | None \<Rightarrow> key \<in> set object_prototype_keys)"

text \<open>
  \<^verbatim>\<open>combinedWorkbook.Sheets[finalSheetName] = originalSheet\<close>. The key \<^verbatim>\<open>__proto__\<close> is
  the inherited accessor: assigning to it adds no own property. (The loop below never
  ends on that key, since reading it is always truthy.)
\<close>

definition assign_sheet :: "sheets_object \<Rightarrow> string \<Rightarrow> sheet option \<Rightarrow> sheets_object" where
  "assign_sheet obj key v = (if key = ''__proto__'' then obj else set_sheet obj key v)"

text \<open>
  The candidate tried for a given \<open>counter\<close>:
  \<^verbatim>\<open>newSheetName.substring(0, 31 - suffix.length) + suffix\<close> with suffix \<^verbatim>\<open>`_${counter}`\<close>.
\<close>

definition suffixed :: "string \<Rightarrow> nat \<Rightarrow> string" where
  "suffixed new counter =
     (let suffix = ''_'' @ toString_nat counter;
          maxBaseLength = 31 - int (length suffix)
      in substring new 0 maxBaseLength @ suffix)"

text \<open>
  The loop \<^verbatim>\<open>while (combinedWorkbook.Sheets[finalSheetName]) { ... counter++ }\<close>, on the
  loop variables \<open>counter\<close> and \<open>finalSheetName\<close>.
\<close>

function finalSheetName_loop :: "sheets_object \<Rightarrow> string \<Rightarrow> nat \<Rightarrow> string \<Rightarrow> string" where
  "finalSheetName_loop obj new counter final =
     (if has_sheet obj final
      then finalSheetName_loop obj new (Suc counter) (suffixed new counter)
      else final)"
  by pat_completeness auto

text \<open>
  The loop ends: a name that is taken is no longer than the longest key of the object
  or of the prototype, and the candidates grow with the digits of the counter.
\<close>

definition longest_key :: "sheets_object \<Rightarrow> nat" where
  "longest_key obj = foldr (\<lambda>k m. max (length k) m) (map fst obj @ object_prototype_keys) 0"

lemma toString_nat_length: "n < 10 ^ length (toString_nat n)"
proof (induction n rule: toString_nat.induct)
  case (1 n)
  show ?case
  proof (cases "n < 10")
    case True
    then show ?thesis by (simp add: toString_nat.simps [of n])
  next
    case False
    with "1" have "n div 10 < 10 ^ length (toString_nat (n div 10))" by simp
    then have "n < 10 * 10 ^ length (toString_nat (n div 10))" by simp
    with False show ?thesis by (simp add: toString_nat.simps [of n])
  qed
qed

lemma longest_key_foldr: "k \<in> set ks \<Longrightarrow> length k \<le> foldr (\<lambda>k m. max (length k) m) ks 0"
  by (induction ks) auto

lemma has_sheet_length: "has_sheet obj key \<Longrightarrow> length key \<le> longest_key obj"
proof -
  assume "has_sheet obj key"
  then have "key \<in> set (map fst obj @ object_prototype_keys)"
    by (auto simp: has_sheet_def split: option.splits dest: map_of_SomeD
        intro: rev_image_eqI)
  then show ?thesis unfolding longest_key_def by (rule longest_key_foldr)
qed

lemma suffixed_length_ge: "length (toString_nat counter) < length (suffixed new counter)"
  by (simp add: suffixed_def Let_def)

lemma suffixed_free: "10 ^ longest_key obj \<le> counter \<Longrightarrow> \<not> has_sheet obj (suffixed new counter)"
proof
  assume big: "10 ^ longest_key obj \<le> counter" and "has_sheet obj (suffixed new counter)"
  then have "length (suffixed new counter) \<le> longest_key obj" by (rule_tac has_sheet_length)
  with suffixed_length_ge [of counter new]
  have "length (toString_nat counter) < longest_key obj" by simp
  then have "(10::nat) ^ length (toString_nat counter) \<le> 10 ^ longest_key obj"
    by (simp add: power_increasing)
  with toString_nat_length [of counter] big show False by simp
qed

termination finalSheetName_loop
proof (relation "measure (\<lambda>(obj, new, counter, final).
    2 * (10 ^ longest_key obj - counter) + (if has_sheet obj final then 1 else 0))")
  show "wf (measure (\<lambda>(obj, new, counter, final).
    2 * (10 ^ longest_key obj - counter) + (if has_sheet obj final then 1 else 0)))"
    by simp
next
  fix obj :: sheets_object and new :: string and counter :: nat and final :: string
  assume taken: "has_sheet obj final"
  show "((obj, new, Suc counter, suffixed new counter), (obj, new, counter, final))
      \<in> measure (\<lambda>(obj, new, counter, final).
          2 * (10 ^ longest_key obj - counter) + (if has_sheet obj final then 1 else 0))"
  proof (cases "counter < 10 ^ longest_key obj")
    case True
    then have "10 ^ longest_key obj - Suc counter < 10 ^ longest_key obj - counter"
      and "2 * (10 ^ longest_key obj - Suc counter) < Suc (2 * (10 ^ longest_key obj - counter))"
      by arith+
    with taken show ?thesis by simp
  next
    case False
    then have "\<not> has_sheet obj (suffixed new counter)" by (intro suffixed_free) simp
    with False taken show ?thesis by simp
  qed
qed

declare finalSheetName_loop.simps [simp del]

definition finalSheetName :: "sheets_object \<Rightarrow> string \<Rightarrow> string" where
  "finalSheetName obj new = finalSheetName_loop obj new 1 new"

subsection \<open>Progress values\<close>

text \<open>
  JavaScript numbers are IEEE 754 doubles. A finite one is modelled by the rational it
  stands for; \<open>round_double\<close> rounds a rational to the nearest double (53 significant
  bits, ties to the even significand, subnormals below \<open>2\<^sup>-\<^sup>1\<^sup>0\<^sup>2\<^sup>2\<close>), and \<open>to_double\<close>
  turns a result of \<open>2\<^sup>1\<^sup>0\<^sup>2\<^sup>4\<close> or more into \<open>Infinity\<close>. The counters of the service are
  whole numbers far below \<open>2\<^sup>5\<^sup>3\<close>, which doubles hold exactly: they stay \<^typ>\<open>nat\<close>.
\<close>

function bitlen :: "int \<Rightarrow> nat" where
  "bitlen n = (if n \<le> 0 then 0 else Suc (bitlen (n div 2)))"
  by pat_completeness auto
termination
  by (relation "measure nat") auto

declare bitlen.simps [simp del]

definition pow2 :: "int \<Rightarrow> rat" where
  "pow2 e = (if 0 \<le> e then 2 ^ nat e else 1 / 2 ^ nat (- e))"

text \<open>The binary exponent of a positive rational: \<open>pow2 (ilog2 x) \<le> x < pow2 (ilog2 x + 1)\<close>.\<close>

definition ilog2 :: "rat \<Rightarrow> int" where
  "ilog2 x =
     (let (p, q) = quotient_of x;
          e = int (bitlen p) - int (bitlen q)
      in if pow2 e \<le> x then e else e - 1)"

definition round_half_even :: "rat \<Rightarrow> int" where
  "round_half_even m =
     (let f = \<lfloor>m\<rfloor>; d = m - of_int f
      in if d < 1 / 2 then f else if 1 / 2 < d then f + 1 else if even f then f else f + 1)"

definition round_double :: "rat \<Rightarrow> rat" where
  "round_double x =
     (if x = 0 then 0
      else (let a = \<bar>x\<bar>;
                e = max (ilog2 a) (- 1022);
                ulp = pow2 (e - 52)
            in sgn x * of_int (round_half_even (a / ulp)) * ulp))"

datatype js_number = Finite rat | Infinity | NaN

definition to_double :: "rat \<Rightarrow> js_number" where
  "to_double x = (let r = round_double x in if 2 ^ 1024 \<le> r then Infinity else Finite r)"

text \<open>\<^verbatim>\<open>a / b\<close> for two counters, and \<^verbatim>\<open>x * n\<close> for a non-negative number and a counter.\<close>

definition js_div_nat :: "nat \<Rightarrow> nat \<Rightarrow> js_number" where
  "js_div_nat a b =
     (if b = 0 then (if a = 0 then NaN else Infinity) else to_double (of_nat a / of_nat b))"

fun js_mul_nat :: "js_number \<Rightarrow> nat \<Rightarrow> js_number" where
  "js_mul_nat (Finite x) n = to_double (x * of_nat n)"
| "js_mul_nat Infinity n = (if n = 0 then NaN else Infinity)"
| "js_mul_nat NaN n = NaN"

text \<open>\<^verbatim>\<open>Math.round\<close>: the nearest integer, a tie going up.\<close>

fun Math_round :: "js_number \<Rightarrow> js_number" where
  "Math_round (Finite x) = Finite (of_int \<lfloor>x + 1 / 2\<rfloor>)"
| "Math_round Infinity = Infinity"
| "Math_round NaN = NaN"

subsection \<open>The merge loop\<close>

text \<open>
  The state of \<^verbatim>\<open>combineAllSheets\<close>: the workbook under construction, the counter
  \<open>processedSheets\<close> and the values passed to \<^verbatim>\<open>onProgress\<close> so far, in call order.
  \<open>onProgress\<close> says whether the caller gave a callback.
\<close>

record combine_state =
  combinedWorkbook :: workbook
  processedSheets :: nat
  progress_calls :: "js_number list"

text \<open>
  The body of the inner loop, for one worksheet of an analysis whose file base name is
  \<open>base\<close> and whose workbook is \<open>wb\<close>.
\<close>

definition combine_worksheet ::
  "bool \<Rightarrow> nat \<Rightarrow> string \<Rightarrow> workbook \<Rightarrow> combine_state \<Rightarrow> worksheet \<Rightarrow> combine_state" where
  "combine_worksheet onProgress totalSheets base wb st worksheet =
     (let originalSheet = get_sheet (Sheets wb) (ws_name worksheet);
          new = newSheetName base (ws_name worksheet);
          final = finalSheetName (Sheets (combinedWorkbook st)) new;
          combined = \<lparr>SheetNames = SheetNames (combinedWorkbook st) @ [final],
                      Sheets = assign_sheet (Sheets (combinedWorkbook st)) final originalSheet\<rparr>;
          processed = Suc (processedSheets st);
          progress = Math_round (js_mul_nat (js_div_nat processed totalSheets) 100)
      in \<lparr>combinedWorkbook = combined, processedSheets = processed,
          progress_calls =
            (if onProgress then progress_calls st @ [progress] else progress_calls st)\<rparr>)"

definition combine_analysis :: "bool \<Rightarrow> nat \<Rightarrow> combine_state \<Rightarrow> analysis \<Rightarrow> combine_state" where
  "combine_analysis onProgress totalSheets st a =
     foldl (combine_worksheet onProgress totalSheets (fileBaseName (info_name (file' a)))
              (workbook a))
       st (worksheets a)"

definition combineAllSheets :: "analysis list \<Rightarrow> bool \<Rightarrow> workbook \<times> js_number list" where
  "combineAllSheets workbookAnalyses onProgress =
     (let totalSheets = foldl (\<lambda>total a. total + length (worksheets a)) 0 workbookAnalyses;
          st = foldl (combine_analysis onProgress totalSheets)
                 \<lparr>combinedWorkbook = book_new, processedSheets = 0, progress_calls = []\<rparr>
                 workbookAnalyses
      in (combinedWorkbook st, progress_calls st))"

subsection \<open>Truncation keeps the sheet name\<close>

lemma substring_0: "substring s 0 b = take (nat b) s"
  by (simp add: substring_def Let_def min_def max_def)

lemma newSheetName_long:
  "31 < length (base @ ''_'' @ name) \<Longrightarrow>
     newSheetName base name = take (30 - length name) base @ ''_'' @ name"
proof -
  assume "31 < length (base @ ''_'' @ name)"
  moreover have "nat (31 - int (length name) - 1) = 30 - length name" by simp
  ultimately show ?thesis
    by (simp add: newSheetName_def Let_def substring_0)
qed

definition long_sheet_name :: string where
  "long_sheet_name = ''ABCDEFGHIJKLMNOPQRSTUVWXYZ01234''"

text \<open>
  No name of at most 31 characters ends with the separator and a sheet name of 31
  characters or more, whatever the truncation does.
\<close>

lemma no_name_fits:
  assumes "suffix (''_'' @ name) s" and "31 \<le> length name"
  shows "31 < length s"
proof -
  from assms(1) have "length (''_'' @ name) \<le> length s" by (rule suffix_length_le)
  with assms(2) show ?thesis by simp
qed

text \<open>
  Claim C2 says that for every worksheet a candidate longer than 31 characters is
  truncated to at most 31 characters and still ends with \<^verbatim>\<open>_<originalSheetName>\<close>. For a
  sheet name of 31 characters (Excel's own limit) the two cannot hold together: the
  truncated candidate of the code ends with \<^verbatim>\<open>_<originalSheetName>\<close> and has 32
  characters.
\<close>

theorem newSheetName_overlong_counterexample:
  "length long_sheet_name = 31
   \<and> 31 < length (''report'' @ ''_'' @ long_sheet_name)
   \<and> newSheetName ''report'' long_sheet_name = ''_'' @ long_sheet_name
   \<and> length (newSheetName ''report'' long_sheet_name) = 32
   \<and> \<not> length (newSheetName ''report'' long_sheet_name) \<le> 31"
  by (simp add: newSheetName_def long_sheet_name_def substring_0)

text \<open>
  Claim C2, amended. For every worksheet whose original sheet name has at most 30
  characters and whose candidate name \<^verbatim>\<open><fileBaseName>_<originalSheetName>\<close> exceeds 31
  characters, the truncation step shortens only the file-name prefix: the truncated
  candidate is a prefix of the file base name (its first \<open>30 - length name\<close> characters)
  followed by \<^verbatim>\<open>_<originalSheetName>\<close>, so it still ends with \<^verbatim>\<open>_<originalSheetName>\<close>
  (the original sheet name is never shortened), and it has exactly 31 characters, hence
  at most 31.
\<close>

theorem newSheetName_truncates_prefix:
  assumes "31 < length (base @ ''_'' @ name)" and "length name \<le> 30"
  shows "newSheetName base name = take (30 - length name) base @ ''_'' @ name
     \<and> suffix (''_'' @ name) (newSheetName base name)
     \<and> prefix (take (30 - length name) base) base
     \<and> length (newSheetName base name) = 31
     \<and> length (newSheetName base name) \<le> 31"
proof -
  note eq = newSheetName_long [OF assms(1)]
  have "suffix (''_'' @ name) (newSheetName base name)"
    unfolding eq by (rule suffix_appendI) simp
  moreover have "prefix (take (30 - length name) base) base"
    by (rule take_is_prefix)
  moreover have "length (newSheetName base name) = 31"
    using assms unfolding eq by simp
  ultimately show ?thesis using eq by simp
qed

theorem newSheetName_truncates_prefix_witness:
  "31 < length (''quarterly_financial_report_2024'' @ ''_'' @ ''Summary'')
   \<and> length ''Summary'' \<le> 30
   \<and> newSheetName ''quarterly_financial_report_2024'' ''Summary'' = ''quarterly_financial_rep_Summary''
   \<and> suffix ''_Summary'' ''quarterly_financial_rep_Summary''
   \<and> prefix ''quarterly_financial_rep'' ''quarterly_financial_report_2024''
   \<and> length ''quarterly_financial_rep_Summary'' = 31"
proof -
  have long: "31 < length (''quarterly_financial_report_2024'' @ ''_'' @ ''Summary'')"
    by simp
  have short: "length ''Summary'' \<le> 30"
    by simp
  from newSheetName_truncates_prefix [OF long short] long show ?thesis
    by (elim conjE) simp
qed

subsection \<open>Final names are distinct\<close>








lemma finalSheetName_loop_first:
  "has_sheet obj final \<Longrightarrow>
     \<exists>c \<ge> counter. finalSheetName_loop obj new counter final = suffixed new c
        \<and> \<not> has_sheet obj (suffixed new c)
        \<and> (\<forall>d. counter \<le> d \<and> d < c \<longrightarrow> has_sheet obj (suffixed new d))"
proof (induction obj new counter final rule: finalSheetName_loop.induct)
  case (1 obj new counter final)
  note taken = \<open>has_sheet obj final\<close>
  have step: "finalSheetName_loop obj new counter final =
      finalSheetName_loop obj new (Suc counter) (suffixed new counter)"
    using taken by (simp add: finalSheetName_loop.simps [of obj new counter final])
  show ?case
  proof (cases "has_sheet obj (suffixed new counter)")
    case False
    then have "finalSheetName_loop obj new counter final = suffixed new counter"
      unfolding step by (simp add: finalSheetName_loop.simps [of obj new "Suc counter"])
    with False show ?thesis by (intro exI [of _ counter]) auto
  next
    case True
    from "1.IH" [OF taken True]
    obtain c where c: "Suc counter \<le> c"
      and eq: "finalSheetName_loop obj new (Suc counter) (suffixed new counter) = suffixed new c"
      and free: "\<not> has_sheet obj (suffixed new c)"
      and before: "\<forall>d. Suc counter \<le> d \<and> d < c \<longrightarrow> has_sheet obj (suffixed new d)"
      by blast
    have "\<forall>d. counter \<le> d \<and> d < c \<longrightarrow> has_sheet obj (suffixed new d)"
    proof (intro allI impI)
      fix d assume "counter \<le> d \<and> d < c"
      then show "has_sheet obj (suffixed new d)"
        using True before by (cases "d = counter") auto
    qed
    with c eq free step show ?thesis
      by (intro exI [of _ c]) simp
  qed
qed

lemma toString_nat_length_le:
  "n < 10 ^ k \<Longrightarrow> 0 < k \<Longrightarrow> length (toString_nat n) \<le> k"
proof (induction n arbitrary: k rule: toString_nat.induct)
  case (1 n)
  show ?case
  proof (cases "n < 10")
    case True
    with "1.prems" show ?thesis by (simp add: toString_nat.simps [of n])
  next
    case False
    from "1.prems" obtain k' where k: "k = Suc k'" by (cases k) auto
    with "1.prems" False have "0 < k'" by (cases k') auto
    moreover from "1.prems" k have "n div 10 < 10 ^ k'" by (simp add: less_mult_imp_div_less mult.commute)
    ultimately have "length (toString_nat (n div 10)) \<le> k'"
      using "1.IH" False by simp
    with False k show ?thesis by (simp add: toString_nat.simps [of n])
  qed
qed

lemma suffixed_eq:
  "suffixed new counter =
     take (30 - length (toString_nat counter)) new @ ''_'' @ toString_nat counter"
proof -
  have "nat (31 - int (length (''_'' @ toString_nat counter))) = 30 - length (toString_nat counter)"
    by simp
  then show ?thesis by (simp add: suffixed_def Let_def substring_0)
qed

lemma suffixed_length:
  "counter < 10 ^ 30 \<Longrightarrow> length (suffixed new counter) \<le> 31"
proof -
  assume "counter < 10 ^ 30"
  then have "length (toString_nat counter) \<le> 30" by (rule toString_nat_length_le) simp
  then show ?thesis by (simp add: suffixed_eq)
qed






text \<open>
  The counter the loop stops at is bounded by the number of keys: the suffixed candidates
  of different counters differ, and all candidates before the chosen one are taken.
\<close>

lemma toString_nat_nonempty: "toString_nat n \<noteq> []"
  by (simp add: toString_nat.simps [of n])

lemma digit_char_digit: "d < 10 \<Longrightarrow> digit_char d \<in> set ''0123456789''"
  unfolding digit_char_def by (rule nth_mem) simp

lemma digit_char_inj: "d < 10 \<Longrightarrow> d' < 10 \<Longrightarrow> digit_char d = digit_char d' \<Longrightarrow> d = d'"
proof -
  assume "d < 10" "d' < 10" "digit_char d = digit_char d'"
  moreover have "distinct ''0123456789''" by simp
  ultimately show ?thesis
    unfolding digit_char_def by (simp add: nth_eq_iff_index_eq)
qed

lemma toString_nat_digits: "set (toString_nat n) \<subseteq> set ''0123456789''"
proof (induction n rule: toString_nat.induct)
  case (1 n)
  show ?case
  proof (cases "n < 10")
    case True
    then show ?thesis
      using digit_char_digit [of n] by (simp add: toString_nat.simps [of n])
  next
    case False
    have "n mod 10 < 10" by simp
    from digit_char_digit [OF this] "1.IH" False show ?thesis
      by (simp add: toString_nat.simps [of n])
  qed
qed

lemma toString_nat_no_underscore: "CHR ''_'' \<notin> set (toString_nat n)"
  using toString_nat_digits [of n] by auto

lemma toString_nat_inj: "toString_nat m = toString_nat n \<Longrightarrow> m = n"
proof (induction m arbitrary: n rule: toString_nat.induct)
  case (1 m)
  show ?case
  proof (cases "m < 10")
    case m: True
    show ?thesis
    proof (cases "n < 10")
      case True
      with m "1.prems" show ?thesis
        by (simp add: toString_nat.simps [of m] toString_nat.simps [of n] digit_char_inj)
    next
      case False
      with m "1.prems" toString_nat_nonempty [of "n div 10"] show ?thesis
        by (simp add: toString_nat.simps [of m] toString_nat.simps [of n])
    qed
  next
    case m: False
    show ?thesis
    proof (cases "n < 10")
      case True
      with m "1.prems" toString_nat_nonempty [of "m div 10"] show ?thesis
        by (simp add: toString_nat.simps [of m] toString_nat.simps [of n])
    next
      case False
      with m "1.prems" have hd: "toString_nat (m div 10) = toString_nat (n div 10)"
        and tl: "digit_char (m mod 10) = digit_char (n mod 10)"
        by (simp_all add: toString_nat.simps [of m] toString_nat.simps [of n])
      from "1.IH" [OF m hd] have "m div 10 = n div 10" .
      moreover from tl have "m mod 10 = n mod 10" by (intro digit_char_inj) simp_all
      ultimately show ?thesis by (metis div_mult_mod_eq)
    qed
  qed
qed

lemma after_last_separator:
  assumes "xs @ u # ys = xs' @ u # ys'" and "u \<notin> set ys" and "u \<notin> set ys'"
  shows "ys = ys'"
proof -
  have "takeWhile (\<lambda>c. c \<noteq> u) (rev (zs @ u # ws)) = rev ws" if "u \<notin> set ws" for zs ws
    using that by (auto simp: takeWhile_tail takeWhile_eq_all_conv [THEN iffD2])
  from this [OF assms(2), of xs] this [OF assms(3), of xs'] assms(1)
  have "rev ys = rev ys'" by simp
  then show ?thesis by simp
qed

lemma suffixed_inj: "suffixed new c = suffixed new d \<Longrightarrow> c = d"
proof -
  assume "suffixed new c = suffixed new d"
  then have "take (30 - length (toString_nat c)) new @ CHR ''_'' # toString_nat c =
      take (30 - length (toString_nat d)) new @ CHR ''_'' # toString_nat d"
    by (simp add: suffixed_eq)
  then have "toString_nat c = toString_nat d"
    by (rule after_last_separator) (rule toString_nat_no_underscore)+
  then show ?thesis by (rule toString_nat_inj)
qed

lemma taken_keys:
  "{k. has_sheet obj k} \<subseteq> fst ` set obj \<union> set object_prototype_keys"
  by (auto simp: has_sheet_def split: option.splits dest: map_of_SomeD intro: rev_image_eqI)

lemma card_taken: "card {k. has_sheet obj k} \<le> length obj + 12"
proof -
  have "card {k. has_sheet obj k} \<le> card (fst ` set obj \<union> set object_prototype_keys)"
    by (intro card_mono taken_keys) simp
  also have "\<dots> \<le> card (fst ` set obj) + card (set object_prototype_keys)"
    by (rule card_Un_le)
  also have "card (fst ` set obj) \<le> length obj"
    by (metis card_image_le card_length le_trans List.finite_set)
  also have "card (set object_prototype_keys) \<le> 12"
    using card_length [of object_prototype_keys] by (simp add: object_prototype_keys_def)
  finally show ?thesis by simp
qed

lemma counter_bound:
  assumes "\<forall>d. 1 \<le> d \<and> d < c \<longrightarrow> has_sheet obj (suffixed new d)"
  shows "c \<le> length obj + 13"
proof -
  have "inj_on (suffixed new) {1..<c}"
    by (rule inj_onI) (rule suffixed_inj)
  then have "card (suffixed new ` {1..<c}) = card {1..<c}" by (rule card_image)
  moreover have "suffixed new ` {1..<c} \<subseteq> {k. has_sheet obj k}" using assms by auto
  moreover have "finite {k. has_sheet obj k}"
    by (rule finite_subset [OF taken_keys]) simp
  ultimately have "card {1..<c} \<le> card {k. has_sheet obj k}"
    by (metis card_mono)
  with card_taken [of obj] show ?thesis by simp
qed

lemma newSheetName_length:
  "length name \<le> 30 \<Longrightarrow> length (newSheetName base name) \<le> 31"
proof (cases "31 < length (base @ ''_'' @ name)")
  case True
  assume "length name \<le> 30"
  with True show ?thesis by (simp add: newSheetName_long)
next
  case False
  then show ?thesis by (simp add: newSheetName_def Let_def)
qed

lemma finalSheetName_length:
  assumes "length new \<le> 31" and "length obj + 13 < 10 ^ 30"
  shows "length (finalSheetName obj new) \<le> 31"
proof (cases "has_sheet obj new")
  case False
  with assms show ?thesis
    by (simp add: finalSheetName_def finalSheetName_loop.simps [of obj new "Suc 0" new])
next
  case True
  from finalSheetName_loop_first [OF this, of 1 new]
  obtain c where eq: "finalSheetName obj new = suffixed new c"
    and before: "\<forall>d. 1 \<le> d \<and> d < c \<longrightarrow> has_sheet obj (suffixed new d)"
    by (auto simp: finalSheetName_def)
  from counter_bound [OF before] assms(2) have "c < 10 ^ 30" by simp
  then show ?thesis unfolding eq by (rule suffixed_length)
qed

lemma length_set_sheet: "length (set_sheet obj k v) \<le> Suc (length obj)"
  by (induction obj k v rule: set_sheet.induct) auto

lemma length_assign_sheet: "length (assign_sheet obj k v) \<le> Suc (length obj)"
  using length_set_sheet [of obj k v] by (simp add: assign_sheet_def)

text \<open>
  A second invariant of the merge loop, for sheet names of at most 30 characters: the
  names placed so far have at most 31 characters, and the object has no more keys than
  sheets were placed.
\<close>

definition names_short :: "workbook \<Rightarrow> bool" where
  "names_short wb \<longleftrightarrow>
     (\<forall>n \<in> set (SheetNames wb). length n \<le> 31) \<and> length (Sheets wb) \<le> length (SheetNames wb)"

lemma combine_worksheet_names_short:
  assumes inv: "names_short (combinedWorkbook st)"
    and short: "length (ws_name w) \<le> 30"
    and room: "length (SheetNames (combinedWorkbook st)) + 13 < 10 ^ 30"
  shows "names_short (combinedWorkbook (combine_worksheet cb tot base wb st w))"
    and "length (SheetNames (combinedWorkbook (combine_worksheet cb tot base wb st w))) =
      Suc (length (SheetNames (combinedWorkbook st)))"
proof -
  let ?obj = "Sheets (combinedWorkbook st)"
  let ?final = "finalSheetName ?obj (newSheetName base (ws_name w))"
  from inv have old: "\<forall>n \<in> set (SheetNames (combinedWorkbook st)). length n \<le> 31"
    and keys: "length ?obj \<le> length (SheetNames (combinedWorkbook st))"
    by (auto simp: names_short_def)
  from keys room have "length ?obj + 13 < 10 ^ 30" by simp
  with newSheetName_length [OF short] have "length ?final \<le> 31"
    by (intro finalSheetName_length)
  with old keys length_assign_sheet [of ?obj ?final "get_sheet (Sheets wb) (ws_name w)"]
  show "names_short (combinedWorkbook (combine_worksheet cb tot base wb st w))"
    by (auto simp: names_short_def combine_worksheet_def Let_def)
  show "length (SheetNames (combinedWorkbook (combine_worksheet cb tot base wb st w))) =
      Suc (length (SheetNames (combinedWorkbook st)))"
    by (simp add: combine_worksheet_def Let_def)
qed

lemma combine_worksheets_names_short:
  assumes "names_short (combinedWorkbook st)"
    and "\<forall>w \<in> set ws. length (ws_name w) \<le> 30"
    and "length (SheetNames (combinedWorkbook st)) + length ws + 13 \<le> 10 ^ 30"
  shows "names_short (combinedWorkbook (foldl (combine_worksheet cb tot base wb) st ws))
     \<and> length (SheetNames (combinedWorkbook (foldl (combine_worksheet cb tot base wb) st ws))) =
         length (SheetNames (combinedWorkbook st)) + length ws"
  using assms
proof (induction ws arbitrary: st)
  case Nil
  then show ?case by simp
next
  case (Cons w ws)
  from Cons.prems have short: "length (ws_name w) \<le> 30"
    and room: "length (SheetNames (combinedWorkbook st)) + 13 < 10 ^ 30" by simp_all
  note step = combine_worksheet_names_short [OF Cons.prems(1) short room, of cb tot base wb]
  from Cons.prems step(2)
  have "length (SheetNames (combinedWorkbook (combine_worksheet cb tot base wb st w)))
      + length ws + 13 \<le> 10 ^ 30" by simp
  with Cons.IH [OF step(1)] Cons.prems(2) step(2) show ?case by simp
qed

lemma combine_analyses_names_short:
  assumes "names_short (combinedWorkbook st)"
    and "\<forall>a \<in> set as. \<forall>w \<in> set (worksheets a). length (ws_name w) \<le> 30"
    and "length (SheetNames (combinedWorkbook st))
      + sum_list (map (\<lambda>a. length (worksheets a)) as) + 13 \<le> 10 ^ 30"
  shows "names_short (combinedWorkbook (foldl (combine_analysis cb tot) st as))"
  using assms
proof (induction as arbitrary: st)
  case Nil
  then show ?case by simp
next
  case (Cons a as)
  from Cons.prems have short: "\<forall>w \<in> set (worksheets a). length (ws_name w) \<le> 30"
    and room: "length (SheetNames (combinedWorkbook st)) + length (worksheets a) + 13 \<le> 10 ^ 30"
    by simp_all
  from combine_worksheets_names_short [OF Cons.prems(1) short room,
      of cb tot "fileBaseName (info_name (file' a))" "workbook a"]
  have inv: "names_short (combinedWorkbook (combine_analysis cb tot st a))"
    and len: "length (SheetNames (combinedWorkbook (combine_analysis cb tot st a))) =
      length (SheetNames (combinedWorkbook st)) + length (worksheets a)"
    by (simp_all add: combine_analysis_def)
  from Cons.prems(3) len
  have "length (SheetNames (combinedWorkbook (combine_analysis cb tot st a)))
      + sum_list (map (\<lambda>a. length (worksheets a)) as) + 13 \<le> 10 ^ 30" by simp
  with Cons.IH [OF inv] Cons.prems(2) show ?case by simp
qed

text \<open>
  What does hold of the length of the final names: when every sheet name has at most 30
  characters (and there are fewer than \<open>10\<^sup>3\<^sup>0 - 12\<close> sheets), every final name has at
  most 31 characters.
\<close>

lemma combineAllSheets_names_within_31:
  assumes "\<forall>a \<in> set as. \<forall>w \<in> set (worksheets a). length (ws_name w) \<le> 30"
    and "sum_list (map (\<lambda>a. length (worksheets a)) as) + 13 \<le> 10 ^ 30"
  shows "\<forall>n \<in> set (SheetNames (fst (combineAllSheets as cb))). length n \<le> 31"
proof -
  let ?st = "\<lparr>combinedWorkbook = book_new, processedSheets = 0, progress_calls = []\<rparr>"
  have "names_short (combinedWorkbook ?st)" by (simp add: names_short_def book_new_def)
  moreover have "length (SheetNames (combinedWorkbook ?st))
      + sum_list (map (\<lambda>a. length (worksheets a)) as) + 13 \<le> 10 ^ 30"
    using assms(2) by (simp add: book_new_def)
  ultimately have "names_short (combinedWorkbook (foldl (combine_analysis cb
      (foldl (\<lambda>total a. total + length (worksheets a)) 0 as)) ?st as))"
    using assms(1) by (intro combine_analyses_names_short)
  then show ?thesis by (simp add: combineAllSheets_def Let_def names_short_def)
qed

text \<open>
  What \<^verbatim>\<open>analyzeWorkbook\<close> returns for a file named \<open>fname\<close> whose workbook has the
  sheets \<open>names\<close>, all without a declared range (the identifier and time set to 0).
\<close>

definition empty_sheet :: sheet where
  "empty_sheet = \<lparr>ref = None, rows = []\<rparr>"

definition analysis_of :: "string \<Rightarrow> string list \<Rightarrow> analysis" where
  "analysis_of fname names =
     \<lparr>file' = \<lparr>Id = 0, info_name = fname, info_size = 0, uploadTime = 0, status = ''analyzed''\<rparr>,
      worksheets =
        map (\<lambda>(n, i). \<lparr>ws_name = n, ws_index = i, rowCount = 1, columnCount = 1, hasData = False\<rparr>)
          (zip names [0..<length names]),
      workbook = \<lparr>SheetNames = names, Sheets = map (\<lambda>n. (n, Some empty_sheet)) names\<rparr>\<rparr>"

lemma analyzeWorkbook_sheets_present:
  assumes "analyzeWorkbook d f c = (Inr a, c')"
  shows "\<forall>w \<in> set (worksheets a). get_sheet (Sheets (workbook a)) (ws_name w) \<noteq> None"
proof
  fix w assume "w \<in> set (worksheets a)"
  then obtain i where i: "i < length (worksheets a)" and w: "w = worksheets a ! i"
    by (auto simp: in_set_conv_nth)
  from analyzeWorkbook_Inr(2) [OF assms]
  have m: "map_index (worksheet_of d (workbook a)) (SheetNames (workbook a)) 0 = Some (worksheets a)" .
  from map_index_Some [OF m] i
  have "worksheet_of d (workbook a) (SheetNames (workbook a) ! i) i = Some w"
    by (simp add: w)
  then show "get_sheet (Sheets (workbook a)) (ws_name w) \<noteq> None"
    by (auto simp: worksheet_of_def Let_def split: option.splits)
qed

lemma analyzeMultipleWorkbooks_loop_sheets_present:
  assumes "analyzeMultipleWorkbooks_loop d files k results c = (Inr rs, c')"
    and "\<forall>a \<in> set results. \<forall>w \<in> set (worksheets a).
      get_sheet (Sheets (workbook a)) (ws_name w) \<noteq> None"
  shows "\<forall>a \<in> set rs. \<forall>w \<in> set (worksheets a).
      get_sheet (Sheets (workbook a)) (ws_name w) \<noteq> None"
  using assms
proof (induction files arbitrary: k results c)
  case Nil
  then show ?case by simp
next
  case (Cons f files)
  obtain r c1 where run: "analyzeWorkbook d f c = (r, c1)" by (cases "analyzeWorkbook d f c")
  with Cons.prems(1) obtain a where r: "r = Inr a" by (cases r) auto
  define a' where "a' = a\<lparr>file' := (file' a)\<lparr>Id := now (delay 0 c1) + k\<rparr>\<rparr>"
  from Cons.prems(1) have loop:
    "analyzeMultipleWorkbooks_loop d files (Suc k) (results @ [a']) (delay 0 c1) = (Inr rs, c')"
    by (simp add: run r Let_def a'_def)
  from analyzeWorkbook_sheets_present [OF run [unfolded r]]
  have "\<forall>w \<in> set (worksheets a'). get_sheet (Sheets (workbook a')) (ws_name w) \<noteq> None"
    by (simp add: a'_def)
  with Cons.prems(2)
  have "\<forall>a \<in> set (results @ [a']). \<forall>w \<in> set (worksheets a).
      get_sheet (Sheets (workbook a)) (ws_name w) \<noteq> None"
    by auto
  from Cons.IH [OF loop this] show ?case .
qed

lemma analyzeMultipleWorkbooks_sheets_present:
  assumes "analyzeMultipleWorkbooks d files c = (Inr rs, c')"
  shows "\<forall>a \<in> set rs. \<forall>w \<in> set (worksheets a).
      get_sheet (Sheets (workbook a)) (ws_name w) \<noteq> None"
proof -
  from assms have "analyzeMultipleWorkbooks_loop d files 0 [] (delay 500 c) = (Inr rs, c')"
    by (simp add: analyzeMultipleWorkbooks_def)
  from analyzeMultipleWorkbooks_loop_sheets_present [OF this] show ?thesis by simp
qed






subsection \<open>A sheet name of 31 characters\<close>

text \<open>
  Claim C1 says that every final sheet name has at most 31 characters. A workbook whose
  sheet has a name of 31 characters, which Excel allows, is analyzed and combined here:
  the file name is dropped entirely, the separator stays, and the final name has 32
  characters.
\<close>

definition long_name_book :: "workbook js_file" where
  "long_name_book =
     \<lparr>file_name = ''report.xlsx'', file_type = '''', file_size = 1024,
      file_content = Decoded \<lparr>SheetNames = [long_sheet_name],
                               Sheets = [(long_sheet_name, Some empty_sheet)]\<rparr>\<rparr>"

definition long_name_analysis :: analysis where
  "long_name_analysis =
     \<lparr>file' = \<lparr>Id = 300, info_name = ''report.xlsx'', info_size = 1024,
                uploadTime = 300, status = ''analyzed''\<rparr>,
      worksheets = [\<lparr>ws_name = long_sheet_name, ws_index = 0, rowCount = 1,
                     columnCount = 1, hasData = False\<rparr>],
      workbook = \<lparr>SheetNames = [long_sheet_name],
                  Sheets = [(long_sheet_name, Some empty_sheet)]\<rparr>\<rparr>"

lemma long_name_book_analysis:
  "analyzeWorkbook example_decode_range long_name_book clock0 =
     (Inr long_name_analysis, \<lparr>now = 300, lags = []\<rparr>)"
  by (simp add: analyzeWorkbook_def long_name_book_def long_name_analysis_def empty_sheet_def
      clock0_def delay_def worksheet_of_def get_sheet_def declared_def example_decode_range_def)

lemma long_newSheetName:
  "newSheetName ''report'' long_sheet_name = ''_ABCDEFGHIJKLMNOPQRSTUVWXYZ01234''"
  by (simp add: newSheetName_def long_sheet_name_def substring_def)

lemma report_fileBaseName: "fileBaseName ''report.xlsx'' = ''report''"
  by (simp add: fileBaseName_def lastIndexOf_def upt_rec)

lemma long_finalSheetName:
  "finalSheetName [] ''_ABCDEFGHIJKLMNOPQRSTUVWXYZ01234'' = ''_ABCDEFGHIJKLMNOPQRSTUVWXYZ01234''"
  by (simp add: finalSheetName_def finalSheetName_loop.simps has_sheet_def object_prototype_keys_def)

lemma long_name_combined:
  "SheetNames (fst (combineAllSheets [long_name_analysis] True)) =
     [''_ABCDEFGHIJKLMNOPQRSTUVWXYZ01234'']"
  by (simp add: combineAllSheets_def combine_analysis_def combine_worksheet_def
      long_name_analysis_def book_new_def report_fileBaseName long_newSheetName
      long_finalSheetName Let_def)

theorem combineAllSheets_name_too_long:
  "analyzeWorkbook example_decode_range long_name_book clock0 =
      (Inr long_name_analysis, \<lparr>now = 300, lags = []\<rparr>)
   \<and> map ws_name (worksheets long_name_analysis) = [long_sheet_name]
   \<and> length long_sheet_name = 31
   \<and> SheetNames (fst (combineAllSheets [long_name_analysis] True)) =
        [''_ABCDEFGHIJKLMNOPQRSTUVWXYZ01234'']
   \<and> length ''_ABCDEFGHIJKLMNOPQRSTUVWXYZ01234'' = 32"
  using long_name_book_analysis long_name_combined
  by (simp add: long_name_analysis_def long_sheet_name_def)

subsection \<open>Progress reports\<close>

lemma bitlen_bounds: "0 < n \<Longrightarrow> 2 ^ (bitlen n - 1) \<le> n \<and> n < 2 ^ bitlen n"
proof (induction n rule: bitlen.induct)
  case (1 n)
  then have n: "0 < n" by simp
  then have unfold: "bitlen n = Suc (bitlen (n div 2))"
    by (simp add: bitlen.simps [of n])
  show ?case
  proof (cases "n div 2 = 0")
    case True
    with n have "n = 1" by presburger
    then show ?thesis by (simp add: bitlen.simps [of 1] bitlen.simps [of 0])
  next
    case False
    with n have pos: "0 < n div 2" by presburger
    with "1.IH" n have lo: "2 ^ (bitlen (n div 2) - 1) \<le> n div 2"
      and hi: "n div 2 < 2 ^ bitlen (n div 2)" by auto
    from pos have b: "0 < bitlen (n div 2)" by (simp add: bitlen.simps [of "n div 2"])
    then obtain b' where b': "bitlen (n div 2) = Suc b'" by (cases "bitlen (n div 2)") auto
    from lo b' have "2 * 2 ^ b' \<le> 2 * (n div 2)" by simp
    also have "\<dots> \<le> n" by presburger
    finally have l: "2 ^ (bitlen n - 1) \<le> n" by (simp add: unfold b')
    from hi have "n div 2 + 1 \<le> 2 ^ bitlen (n div 2)" by simp
    then have "2 * (n div 2) + 2 \<le> 2 * 2 ^ bitlen (n div 2)" by simp
    moreover have "n < 2 * (n div 2) + 2" by presburger
    ultimately have "n < 2 ^ bitlen n" by (simp add: unfold)
    with l show ?thesis by simp
  qed
qed

lemma pow2_power_int: "pow2 e = power_int 2 e"
  by (simp add: pow2_def power_int_def power_inverse [symmetric] inverse_eq_divide power_one_over)

lemma pow2_pos: "0 < pow2 e"
  by (simp add: pow2_power_int)

lemma pow2_add: "pow2 (a + b) = pow2 a * pow2 b"
  by (simp add: pow2_power_int power_int_add)

lemma pow2_mono: "a \<le> b \<Longrightarrow> pow2 a \<le> pow2 b"
  by (simp add: pow2_power_int power_int_increasing)

lemma pow2_nat: "pow2 (int n) = 2 ^ n"
  by (simp add: pow2_def)

lemma pow2_diff: "pow2 (a - b) = pow2 a / pow2 b"
  by (simp add: pow2_power_int power_int_diff)

lemma ilog2_bounds:
  assumes "0 < x"
  shows "pow2 (ilog2 x) \<le> x \<and> x < pow2 (ilog2 x + 1)"
proof -
  obtain p q where pq: "quotient_of x = (p, q)" by (cases "quotient_of x")
  then have q: "0 < q" by (rule quotient_of_denom_pos)
  from pq have x: "x = of_int p / of_int q" by (rule quotient_of_div)
  with assms q have p: "0 < p" by (simp add: zero_less_divide_iff)
  define e where "e = int (bitlen p) - int (bitlen q)"
  from bitlen_bounds [OF p] have p1: "(2::int) ^ (bitlen p - 1) \<le> p" and p2: "p < 2 ^ bitlen p"
    by auto
  from bitlen_bounds [OF q] have q1: "(2::int) ^ (bitlen q - 1) \<le> q" and q2: "q < 2 ^ bitlen q"
    by auto
  from p have bp: "0 < bitlen p" by (simp add: bitlen.simps [of p])
  from q have bq: "0 < bitlen q" by (simp add: bitlen.simps [of q])
  have P1: "pow2 (int (bitlen p) - 1) \<le> of_int p"
  proof -
    have "pow2 (int (bitlen p) - 1) = pow2 (int (bitlen p - 1))" using bp by (simp add: of_nat_diff)
    also have "\<dots> = of_int (2 ^ (bitlen p - 1))" by (simp add: pow2_nat)
    also have "\<dots> \<le> of_int p" using p1 by (simp only: of_int_le_iff)
    finally show ?thesis .
  qed
  have P2: "of_int p < pow2 (int (bitlen p))"
  proof -
    have "(of_int p :: rat) < of_int (2 ^ bitlen p)" using p2 by (simp only: of_int_less_iff)
    then show ?thesis by (simp add: pow2_nat)
  qed
  have Q1: "pow2 (int (bitlen q) - 1) \<le> of_int q"
  proof -
    have "pow2 (int (bitlen q) - 1) = pow2 (int (bitlen q - 1))" using bq by (simp add: of_nat_diff)
    also have "\<dots> = of_int (2 ^ (bitlen q - 1))" by (simp add: pow2_nat)
    also have "\<dots> \<le> of_int q" using q1 by (simp only: of_int_le_iff)
    finally show ?thesis .
  qed
  have Q2: "of_int q < pow2 (int (bitlen q))"
  proof -
    have "(of_int q :: rat) < of_int (2 ^ bitlen q)" using q2 by (simp only: of_int_less_iff)
    then show ?thesis by (simp add: pow2_nat)
  qed
  have qpos: "(0::rat) < of_int q" using q by simp
  have ppos: "(0::rat) < of_int p" using p by simp
  have upper: "x < pow2 (e + 1)"
  proof -
    have "of_int p * pow2 (int (bitlen q) - 1) < pow2 (int (bitlen p)) * of_int q"
      using P2 Q1 ppos pow2_pos [of "int (bitlen q) - 1"]
      by (intro mult_less_le_imp_less) simp_all
    then have "x < pow2 (int (bitlen p)) / pow2 (int (bitlen q) - 1)"
      unfolding x using qpos pow2_pos [of "int (bitlen q) - 1"]
      by (simp add: divide_less_eq less_divide_eq pos_divide_less_eq mult.commute field_simps)
    also have "\<dots> = pow2 (e + 1)"
      by (simp add: e_def pow2_diff [symmetric] algebra_simps)
    finally show ?thesis .
  qed
  have lower: "pow2 (e - 1) < x"
  proof -
    have "pow2 (int (bitlen p) - 1) * of_int q < of_int p * pow2 (int (bitlen q))"
      using P1 Q2 qpos pow2_pos [of "int (bitlen p) - 1"]
      by (intro mult_le_less_imp_less) simp_all
    then have "pow2 (int (bitlen p) - 1) / pow2 (int (bitlen q)) < x"
      unfolding x using qpos pow2_pos [of "int (bitlen q)"]
      by (simp add: field_simps)
    moreover have "pow2 (int (bitlen p) - 1) / pow2 (int (bitlen q)) = pow2 (e - 1)"
      by (simp add: e_def pow2_diff [symmetric] algebra_simps)
    ultimately show ?thesis by simp
  qed
  have il: "ilog2 x = (if pow2 e \<le> x then e else e - 1)"
    by (simp add: ilog2_def pq e_def Let_def)
  show ?thesis
  proof (cases "pow2 e \<le> x")
    case True
    with il upper show ?thesis by simp
  next
    case False
    with il lower show ?thesis by simp
  qed
qed

lemma ilog2_mono: "0 < x \<Longrightarrow> x \<le> y \<Longrightarrow> ilog2 x \<le> ilog2 y"
proof (rule ccontr)
  assume x: "0 < x" and xy: "x \<le> y" and "\<not> ilog2 x \<le> ilog2 y"
  then have "ilog2 y + 1 \<le> ilog2 x" by simp
  then have "pow2 (ilog2 y + 1) \<le> pow2 (ilog2 x)" by (rule pow2_mono)
  also have "\<dots> \<le> x" using ilog2_bounds [OF x] by simp
  also note xy
  finally have "pow2 (ilog2 y + 1) \<le> y" .
  moreover from x xy have "0 < y" by simp
  then have "y < pow2 (ilog2 y + 1)" using ilog2_bounds by simp
  ultimately show False by simp
qed

lemma round_half_even_cases:
  "round_half_even m = \<lfloor>m\<rfloor> \<or> round_half_even m = \<lfloor>m\<rfloor> + 1"
  by (simp add: round_half_even_def Let_def)

lemma round_half_even_of_int: "round_half_even (of_int k) = k"
  by (simp add: round_half_even_def Let_def)

lemma round_half_even_mono:
  assumes "m \<le> m'"
  shows "round_half_even m \<le> round_half_even m'"
proof -
  from assms have f: "\<lfloor>m\<rfloor> \<le> \<lfloor>m'\<rfloor>" by (rule floor_mono)
  show ?thesis
  proof (cases "\<lfloor>m\<rfloor> = \<lfloor>m'\<rfloor>")
    case False
    with f have "\<lfloor>m\<rfloor> + 1 \<le> \<lfloor>m'\<rfloor>" by simp
    moreover have "round_half_even m \<le> \<lfloor>m\<rfloor> + 1"
      using round_half_even_cases [of m] by auto
    moreover have "\<lfloor>m'\<rfloor> \<le> round_half_even m'"
      using round_half_even_cases [of m'] by auto
    ultimately show ?thesis by simp
  next
    case True
    with assms have "m - of_int \<lfloor>m\<rfloor> \<le> m' - of_int \<lfloor>m'\<rfloor>" by simp
    with True show ?thesis
      by (auto simp: round_half_even_def Let_def)
  qed
qed

lemma round_half_even_between:
  "of_int a \<le> m \<Longrightarrow> m \<le> of_int b \<Longrightarrow> a \<le> round_half_even m \<and> round_half_even m \<le> b"
  using round_half_even_mono [of "of_int a" m] round_half_even_mono [of m "of_int b"]
  by (simp add: round_half_even_of_int)

text \<open>A positive number rounds to a double between the powers of two around it.\<close>

lemma round_double_pos_eq:
  "0 < x \<Longrightarrow>
     round_double x =
       of_int (round_half_even (x / pow2 (max (ilog2 x) (- 1022) - 52)))
         * pow2 (max (ilog2 x) (- 1022) - 52)"
  by (simp add: round_double_def Let_def)

lemma round_double_upper:
  assumes x: "0 < x"
  shows "round_double x \<le> pow2 (max (ilog2 x) (- 1022) + 1)"
proof -
  define e where "e = max (ilog2 x) (- 1022)"
  have "x < pow2 (ilog2 x + 1)" using ilog2_bounds [OF x] by simp
  also have "\<dots> \<le> pow2 (e + 1)" by (rule pow2_mono) (simp add: e_def)
  finally have "x / pow2 (e - 52) \<le> pow2 (e + 1) / pow2 (e - 52)"
    using pow2_pos [of "e - 52"] by (simp add: divide_le_cancel)
  also have "pow2 (e + 1) / pow2 (e - 52) = of_int (2 ^ 53)"
  proof -
    have "pow2 (e + 1) / pow2 (e - 52) = pow2 (e + 1 - (e - 52))" by (rule pow2_diff [symmetric])
    also have "\<dots> = pow2 53" by simp
    finally show ?thesis by (simp add: pow2_def)
  qed
  finally have "round_half_even (x / pow2 (e - 52)) \<le> 2 ^ 53"
    using round_half_even_mono [of "x / pow2 (e - 52)" "of_int (2 ^ 53)"]
    by (simp only: round_half_even_of_int)
  then have "(of_int (round_half_even (x / pow2 (e - 52))) :: rat) \<le> of_int (2 ^ 53)"
    by (simp only: of_int_le_iff)
  then have "of_int (round_half_even (x / pow2 (e - 52))) * pow2 (e - 52)
      \<le> of_int (2 ^ 53) * pow2 (e - 52)"
    using pow2_pos [of "e - 52"] by (simp add: mult_le_cancel_right)
  also have "of_int (2 ^ 53) * pow2 (e - 52) = pow2 (e + 1)"
  proof -
    have "pow2 53 * pow2 (e - 52) = pow2 (53 + (e - 52))" by (rule pow2_add [symmetric])
    moreover have "53 + (e - 52) = e + 1" by simp
    moreover have "pow2 53 = of_int (2 ^ 53)" by (simp add: pow2_def)
    ultimately show ?thesis by simp
  qed
  finally have "of_int (round_half_even (x / pow2 (e - 52))) * pow2 (e - 52) \<le> pow2 (e + 1)" .
  then show ?thesis unfolding round_double_pos_eq [OF x] e_def .
qed

lemma round_double_lower:
  assumes x: "0 < x" and normal: "- 1022 \<le> ilog2 x"
  shows "pow2 (ilog2 x) \<le> round_double x"
proof -
  define e where "e = ilog2 x"
  have e: "max (ilog2 x) (- 1022) = e" using normal by (simp add: e_def)
  have "pow2 e \<le> x" using ilog2_bounds [OF x] by (simp add: e_def)
  then have "pow2 e / pow2 (e - 52) \<le> x / pow2 (e - 52)"
    using pow2_pos [of "e - 52"] by (simp add: divide_le_cancel)
  moreover have "pow2 e / pow2 (e - 52) = of_int (2 ^ 52)"
  proof -
    have "pow2 e / pow2 (e - 52) = pow2 (e - (e - 52))" by (rule pow2_diff [symmetric])
    also have "\<dots> = pow2 52" by simp
    finally show ?thesis by (simp add: pow2_def)
  qed
  ultimately have "2 ^ 52 \<le> round_half_even (x / pow2 (e - 52))"
    using round_half_even_mono [of "of_int (2 ^ 52)" "x / pow2 (e - 52)"]
    by (simp only: round_half_even_of_int)
  then have "(of_int (2 ^ 52) :: rat) \<le> of_int (round_half_even (x / pow2 (e - 52)))"
    by (simp only: of_int_le_iff)
  then have "of_int (2 ^ 52) * pow2 (e - 52)
      \<le> of_int (round_half_even (x / pow2 (e - 52))) * pow2 (e - 52)"
    using pow2_pos [of "e - 52"] by (simp add: mult_le_cancel_right)
  moreover have "of_int (2 ^ 52) * pow2 (e - 52) = pow2 e"
  proof -
    have "pow2 52 * pow2 (e - 52) = pow2 (52 + (e - 52))" by (rule pow2_add [symmetric])
    moreover have "52 + (e - 52) = e" by simp
    moreover have "pow2 52 = of_int (2 ^ 52)" by (simp add: pow2_def)
    ultimately show ?thesis by simp
  qed
  ultimately have "pow2 e \<le> of_int (round_half_even (x / pow2 (e - 52))) * pow2 (e - 52)"
    by simp
  then show ?thesis unfolding round_double_pos_eq [OF x] e unfolding e_def .
qed

lemma round_double_nonneg: "0 \<le> x \<Longrightarrow> 0 \<le> round_double x"
proof (cases "x = 0")
  case True
  then show ?thesis by (simp add: round_double_def)
next
  case False
  assume "0 \<le> x"
  with False have x: "0 < x" by simp
  have "0 \<le> x / pow2 (max (ilog2 x) (- 1022) - 52)"
    using x pow2_pos [of "max (ilog2 x) (- 1022) - 52"] by simp
  then have "0 \<le> round_half_even (x / pow2 (max (ilog2 x) (- 1022) - 52))"
    using round_half_even_mono [of 0 "x / pow2 (max (ilog2 x) (- 1022) - 52)"]
      round_half_even_of_int [of 0]
    by simp
  then show ?thesis
    using pow2_pos [of "max (ilog2 x) (- 1022) - 52"]
    by (simp add: round_double_pos_eq [OF x])
qed

lemma round_double_mono:
  assumes "0 \<le> x" and "x \<le> y"
  shows "round_double x \<le> round_double y"
proof (cases "x = 0")
  case True
  with assms round_double_nonneg [of y] show ?thesis by (simp add: round_double_def)
next
  case False
  with assms have x: "0 < x" and y: "0 < y" by simp_all
  define ex where "ex = max (ilog2 x) (- 1022)"
  define ey where "ey = max (ilog2 y) (- 1022)"
  have le: "ex \<le> ey" using ilog2_mono [OF x assms(2)] by (simp add: ex_def ey_def)
  show ?thesis
  proof (cases "ex = ey")
    case True
    have "x / pow2 (ex - 52) \<le> y / pow2 (ex - 52)"
      using assms(2) pow2_pos [of "ex - 52"] by (simp add: divide_le_cancel)
    then have "round_half_even (x / pow2 (ex - 52)) \<le> round_half_even (y / pow2 (ex - 52))"
      by (rule round_half_even_mono)
    then have "(of_int (round_half_even (x / pow2 (ex - 52))) :: rat)
        \<le> of_int (round_half_even (y / pow2 (ex - 52)))"
      by (simp only: of_int_le_iff)
    then have "of_int (round_half_even (x / pow2 (ex - 52))) * pow2 (ex - 52)
        \<le> of_int (round_half_even (y / pow2 (ex - 52))) * pow2 (ex - 52)"
      using pow2_pos [of "ex - 52"] by (simp add: mult_le_cancel_right)
    then show ?thesis
      using True by (simp add: round_double_pos_eq [OF x] round_double_pos_eq [OF y]
          ex_def [symmetric] ey_def [symmetric])
  next
    case False
    with le have lt: "ex < ey" by simp
    then have normal: "- 1022 \<le> ilog2 y" and ey: "ey = ilog2 y"
      by (auto simp: ex_def ey_def)
    have "round_double x \<le> pow2 (ex + 1)"
      using round_double_upper [OF x] by (simp add: ex_def)
    also have "\<dots> \<le> pow2 ey" using lt by (intro pow2_mono) simp
    also have "\<dots> \<le> round_double y"
      using round_double_lower [OF y normal] by (simp add: ey)
    finally show ?thesis .
  qed
qed


lemma round_double_1: "round_double 1 = 1"
  by code_simp

lemma round_double_100: "round_double 100 = 100"
  by code_simp

lemma to_double_small:
  assumes "0 \<le> x" and "x \<le> 100"
  shows "to_double x = Finite (round_double x)"
proof -
  have "round_double x \<le> 100"
    using round_double_mono [OF assms] by (simp add: round_double_100)
  also have "(100::rat) < 2 ^ 1024" by simp
  finally show ?thesis by (simp add: to_double_def Let_def)
qed

text \<open>
  The integer that \<^verbatim>\<open>Math.round((processedSheets / totalSheets) * 100)\<close> yields for
  \<open>k\<close> of \<open>n\<close> sheets: two roundings to a double, then the rounding to an integer.
\<close>

definition percent :: "nat \<Rightarrow> nat \<Rightarrow> int" where
  "percent k n = \<lfloor>round_double (round_double (of_nat k / of_nat n) * 100) + 1 / 2\<rfloor>"

lemma quotient_range:
  assumes "k \<le> n" and "0 < n"
  shows "0 \<le> round_double (of_nat k / of_nat n)" and "round_double (of_nat k / of_nat n) \<le> 1"
proof -
  have q0: "(0::rat) \<le> of_nat k / of_nat n" by simp
  have q1: "(of_nat k / of_nat n :: rat) \<le> 1" using assms by simp
  show "0 \<le> round_double (of_nat k / of_nat n)" using q0 by (rule round_double_nonneg)
  show "round_double (of_nat k / of_nat n) \<le> 1"
    using round_double_mono [OF q0 q1] by (simp add: round_double_1)
qed

lemma progress_eq:
  assumes "k \<le> n" and "0 < n"
  shows "Math_round (js_mul_nat (js_div_nat k n) 100) = Finite (of_int (percent k n))"
proof -
  let ?q = "round_double (of_nat k / of_nat n)"
  note r = quotient_range [OF assms]
  have "(of_nat k / of_nat n :: rat) \<le> 100" using assms by (simp add: pos_divide_le_eq)
  then have d: "js_div_nat k n = Finite ?q"
    using assms by (simp add: js_div_nat_def to_double_small)
  have "0 \<le> ?q * 100" and "?q * 100 \<le> 100" using r by simp_all
  then have m: "to_double (?q * 100) = Finite (round_double (?q * 100))"
    by (rule to_double_small)
  show ?thesis by (simp add: d m percent_def)
qed

lemma percent_mono:
  assumes "k \<le> k'" and "k' \<le> n" and "0 < n"
  shows "percent k n \<le> percent k' n"
proof -
  have "(of_nat k / of_nat n :: rat) \<le> of_nat k' / of_nat n"
    using assms by (simp add: divide_le_cancel)
  then have "round_double (of_nat k / of_nat n) \<le> round_double (of_nat k' / of_nat n)"
    by (intro round_double_mono) simp_all
  moreover have "0 \<le> round_double (of_nat k / of_nat n)"
    using assms by (intro quotient_range) simp_all
  ultimately have "round_double (round_double (of_nat k / of_nat n) * 100)
      \<le> round_double (round_double (of_nat k' / of_nat n) * 100)"
    by (intro round_double_mono) simp_all
  then show ?thesis unfolding percent_def by (intro floor_mono) simp
qed

lemma percent_full: "0 < n \<Longrightarrow> percent n n = 100"
proof -
  assume "0 < n"
  then have "percent n n = \<lfloor>(100::rat) + 1 / 2\<rfloor>"
    by (simp add: percent_def round_double_1 round_double_100)
  also have "\<dots> = 100" by (rule floor_unique) simp_all
  finally show ?thesis .
qed

lemma percent_nonneg: "0 \<le> percent k n"
proof -
  have "0 \<le> round_double (of_nat k / of_nat n)" by (intro round_double_nonneg) simp
  then have "0 \<le> round_double (round_double (of_nat k / of_nat n) * 100)"
    by (intro round_double_nonneg) simp
  then show ?thesis unfolding percent_def by (simp add: zero_le_floor)
qed

lemma percent_of_5:
  "percent 1 5 = 20" "percent 2 5 = 40" "percent 3 5 = 60" "percent 4 5 = 80" "percent 5 5 = 100"
  by code_simp+

text \<open>
  Double rounding shows: 29 of 200 sheets is 14.5 percent, yet \<^verbatim>\<open>29 / 200 * 100\<close> is the
  double just below 14.5 and is reported as 14.
\<close>

lemma percent_29_of_200: "percent 29 200 = 14"
  by code_simp

lemma combine_worksheet_processed:
  "processedSheets (combine_worksheet cb tot base wb st w) = Suc (processedSheets st)"
  by (simp add: combine_worksheet_def Let_def)

lemma combine_worksheet_calls:
  "progress_calls (combine_worksheet True tot base wb st w) =
     progress_calls st @ [Math_round (js_mul_nat (js_div_nat (Suc (processedSheets st)) tot) 100)]"
  by (simp add: combine_worksheet_def Let_def)

lemma combine_worksheet_silent:
  "progress_calls (combine_worksheet False tot base wb st w) = progress_calls st"
  by (simp add: combine_worksheet_def Let_def)

lemma combine_worksheets_calls:
  "progress_calls (foldl (combine_worksheet True tot base wb) st ws) =
     progress_calls st
       @ map (\<lambda>k. Math_round (js_mul_nat (js_div_nat k tot) 100))
           [Suc (processedSheets st)..<Suc (processedSheets st + length ws)]
   \<and> processedSheets (foldl (combine_worksheet True tot base wb) st ws) =
       processedSheets st + length ws"
proof (induction ws arbitrary: st)
  case Nil
  then show ?case by simp
next
  case (Cons w ws)
  have "[Suc (processedSheets st)..<Suc (processedSheets st + length (w # ws))] =
      Suc (processedSheets st) # [Suc (Suc (processedSheets st))..<Suc (Suc (processedSheets st) + length ws)]"
    by (simp del: upt_Suc add: upt_conv_Cons)
  with Cons.IH [of "combine_worksheet True tot base wb st w"] show ?case
    by (simp del: upt_Suc add: combine_worksheet_processed combine_worksheet_calls)
qed

lemma combine_worksheets_silent:
  "progress_calls (foldl (combine_worksheet False tot base wb) st ws) = progress_calls st"
  by (induction ws arbitrary: st) (simp_all add: combine_worksheet_silent)

lemma combine_analyses_calls:
  "progress_calls (foldl (combine_analysis True tot) st as) =
     progress_calls st
       @ map (\<lambda>k. Math_round (js_mul_nat (js_div_nat k tot) 100))
           [Suc (processedSheets st)
             ..<Suc (processedSheets st + sum_list (map (\<lambda>a. length (worksheets a)) as))]
   \<and> processedSheets (foldl (combine_analysis True tot) st as) =
       processedSheets st + sum_list (map (\<lambda>a. length (worksheets a)) as)"
proof (induction as arbitrary: st)
  case Nil
  then show ?case by simp
next
  case (Cons a as)
  let ?st = "combine_analysis True tot st a"
  let ?p = "processedSheets st" and ?n = "length (worksheets a)"
  let ?m = "sum_list (map (\<lambda>a. length (worksheets a)) as)"
  from combine_worksheets_calls [of tot "fileBaseName (info_name (file' a))" "workbook a" st "worksheets a"]
  have calls: "progress_calls ?st = progress_calls st
       @ map (\<lambda>k. Math_round (js_mul_nat (js_div_nat k tot) 100)) [Suc ?p..<Suc (?p + ?n)]"
    and processed: "processedSheets ?st = ?p + ?n"
    by (simp_all add: combine_analysis_def)
  have "[Suc ?p..<Suc (?p + ?n)] @ [Suc (?p + ?n)..<Suc (?p + ?n + ?m)] = [Suc ?p..<Suc (?p + (?n + ?m))]"
    using upt_add_eq_append [of "Suc ?p" "Suc (?p + ?n)" ?m] by (simp del: upt_Suc add: add.assoc)
  then have "map (\<lambda>k. Math_round (js_mul_nat (js_div_nat k tot) 100)) [Suc ?p..<Suc (?p + ?n)]
      @ map (\<lambda>k. Math_round (js_mul_nat (js_div_nat k tot) 100)) [Suc (?p + ?n)..<Suc (?p + ?n + ?m)]
    = map (\<lambda>k. Math_round (js_mul_nat (js_div_nat k tot) 100)) [Suc ?p..<Suc (?p + (?n + ?m))]"
    by (simp only: map_append [symmetric])
  with Cons.IH [of ?st] show ?case
    by (simp del: upt_Suc add: calls processed add.assoc)
qed

lemma combine_analyses_silent:
  "progress_calls (foldl (combine_analysis False tot) st as) = progress_calls st"
  by (induction as arbitrary: st) (simp_all add: combine_analysis_def combine_worksheets_silent)

lemma totalSheets_sum:
  "foldl (\<lambda>total a. total + length (worksheets a)) n as =
     n + sum_list (map (\<lambda>a. length (worksheets a)) as)"
  by (induction as arbitrary: n) simp_all

lemma combineAllSheets_calls:
  "snd (combineAllSheets as True) =
     map (\<lambda>k. Math_round (js_mul_nat (js_div_nat k (sum_list (map (\<lambda>a. length (worksheets a)) as))) 100))
       [1..<Suc (sum_list (map (\<lambda>a. length (worksheets a)) as))]"
  using combine_analyses_calls [of "sum_list (map (\<lambda>a. length (worksheets a)) as)"
      "\<lparr>combinedWorkbook = book_new, processedSheets = 0, progress_calls = []\<rparr>" as]
  by (simp del: upt_Suc add: combineAllSheets_def totalSheets_sum Let_def)

lemma progress_calls_percent:
  "map (\<lambda>k. Math_round (js_mul_nat (js_div_nat k n) 100)) [1..<Suc n] =
     map (\<lambda>p. Finite (of_int p)) (map (\<lambda>k. percent k n) [1..<Suc n])"
  by (rule nth_equalityI) (simp_all del: upt_Suc add: progress_eq)

lemma sorted_percent: "sorted (map (\<lambda>k. percent k n) [1..<Suc n])"
  by (auto simp del: upt_Suc simp: sorted_iff_nth_mono intro!: percent_mono)

lemma last_percent: "1 \<le> n \<Longrightarrow> last (map (\<lambda>k. percent k n) [1..<Suc n]) = 100"
  by (simp del: upt_Suc add: last_map percent_full)

lemma percent_le_100: "k \<le> n \<Longrightarrow> 0 < n \<Longrightarrow> percent k n \<le> 100"
  using percent_mono [of k n n] by (simp add: percent_full)

text \<open>
  Claim C8. Let \<open>N\<close> be the number of worksheets of all analyses. With a callback, each
  worksheet adds exactly one call, made after the sheet is placed, and the calls of a run
  are \<^verbatim>\<open>Math.round((k / N) * 100)\<close> for \<open>k = 1, ..., N\<close> in this order, computed as
  JavaScript does (quotient and product are doubles). These values are integers, the
  sequence never decreases, and for \<open>N \<ge> 1\<close> its last value is 100. For five worksheets,
  however they are spread over the files, the sequence is 20, 40, 60, 80, 100. Without a
  callback nothing is reported.
\<close>

theorem combineAllSheets_progress:
  assumes N: "N = sum_list (map (\<lambda>a. length (worksheets a)) analyses)"
  shows "snd (combineAllSheets analyses True) =
       map (\<lambda>k. Math_round (js_mul_nat (js_div_nat k N) 100)) [1..<Suc N]
     \<and> progress_calls (combine_worksheet True tot base wb st w) =
         progress_calls st
           @ [Math_round (js_mul_nat (js_div_nat (Suc (processedSheets st)) tot) 100)]
     \<and> (\<exists>ps. snd (combineAllSheets analyses True) = map (\<lambda>p. Finite (of_int p)) ps
            \<and> length ps = N \<and> sorted ps \<and> (1 \<le> N \<longrightarrow> last ps = 100))
     \<and> (N = 5 \<longrightarrow> snd (combineAllSheets analyses True) = map Finite [20, 40, 60, 80, 100])
     \<and> snd (combineAllSheets analyses False) = []"
proof -
  let ?ps = "map (\<lambda>k. percent k N) [1..<Suc N]"
  have calls: "snd (combineAllSheets analyses True) =
       map (\<lambda>k. Math_round (js_mul_nat (js_div_nat k N) 100)) [1..<Suc N]"
    unfolding N by (rule combineAllSheets_calls)
  have ps: "snd (combineAllSheets analyses True) = map (\<lambda>p. Finite (of_int p)) ?ps"
    unfolding calls by (rule progress_calls_percent)
  have "length ?ps = N" by (simp del: upt_Suc)
  with ps sorted_percent [of N] last_percent [of N]
  have ex: "\<exists>ps. snd (combineAllSheets analyses True) = map (\<lambda>p. Finite (of_int p)) ps
            \<and> length ps = N \<and> sorted ps \<and> (1 \<le> N \<longrightarrow> last ps = 100)"
    by blast
  have five: "snd (combineAllSheets analyses True) = map Finite [20, 40, 60, 80, 100]" if "N = 5"
  proof -
    have "[1..<Suc 5] = [1, 2, 3, 4, 5]" by (simp add: upt_rec)
    then show ?thesis
      unfolding ps that by (simp add: percent_of_5 percent_of_5(1) [unfolded One_nat_def])
  qed
  have silent: "snd (combineAllSheets analyses False) = []"
    using combine_analyses_silent
      [of "foldl (\<lambda>total a. total + length (worksheets a)) 0 analyses"
        "\<lparr>combinedWorkbook = book_new, processedSheets = 0, progress_calls = []\<rparr>" analyses]
    by (simp add: combineAllSheets_def Let_def)
  from calls combine_worksheet_calls [of tot base wb st w] ex five silent
  show ?thesis by blast
qed

theorem combineAllSheets_progress_witness:
  "(5::nat) = sum_list (map (\<lambda>a. length (worksheets a))
      [analysis_of ''a.xlsx'' [''S1'', ''S2'', ''S3''], analysis_of ''b.xlsx'' [''S1'', ''S2'']])
   \<and> snd (combineAllSheets
      [analysis_of ''a.xlsx'' [''S1'', ''S2'', ''S3''], analysis_of ''b.xlsx'' [''S1'', ''S2'']] True)
     = map Finite [20, 40, 60, 80, 100]"
proof -
  have n: "(5::nat) = sum_list (map (\<lambda>a. length (worksheets a))
      [analysis_of ''a.xlsx'' [''S1'', ''S2'', ''S3''], analysis_of ''b.xlsx'' [''S1'', ''S2'']])"
    by (simp add: analysis_of_def)
  from combineAllSheets_progress [OF n] n show ?thesis by blast
qed

section \<open>Sheet renderer\<close>

text \<open>
  \<^verbatim>\<open>processWorksheets\<close> draws each selected worksheet with jsPDF and packs the documents
  with JSZip. A document is modelled by the drawing calls made on it, in order; that list
  stands for the buffer \<^verbatim>\<open>pdf.output('arraybuffer')\<close>. Coordinates are millimetres: the
  vertical ones are whole numbers, the horizontal ones are doubles, each given by the
  rational number it is. The library functions \<^verbatim>\<open>XLSX.utils.sheet_to_json(sheet, { header: 1,
  defval: '' })\<close> and \<^verbatim>\<open>String\<close> on numbers are the parameters \<open>sheet_to_json\<close> and
  \<open>number_toString\<close>; the page size of \<^verbatim>\<open>new jsPDF('p', 'mm', 'a4')\<close> is \<open>pageWidth\<close> and
  \<open>pageHeight\<close>, the doubles that \<^verbatim>\<open>pdf.internal.pageSize\<close> reports. The awaited delays
  only pass time and are left out.
\<close>

datatype pdf_command =
    SetFontSize nat
  | Text string rat nat
  | AddPage

text \<open>
  \<^verbatim>\<open>a + b\<close>, \<^verbatim>\<open>a - b\<close> and \<^verbatim>\<open>a / b\<close> on coordinates: the exact result rounded to the
  nearest double. The operands are finite and of the size of a sheet of paper, far from
  the range where a double overflows, which \<open>round_double\<close> leaves out.
\<close>

definition js_add :: "rat \<Rightarrow> rat \<Rightarrow> rat" where
  "js_add a b = round_double (a + b)"

definition js_sub :: "rat \<Rightarrow> rat \<Rightarrow> rat" where
  "js_sub a b = round_double (a - b)"

definition js_div :: "rat \<Rightarrow> rat \<Rightarrow> rat" where
  "js_div a b = round_double (a / b)"

text \<open>Truthiness of a cell value, and \<^verbatim>\<open>String(v)\<close>.\<close>

fun js_truthy :: "cell_value \<Rightarrow> bool" where
  "js_truthy (CellString s) = (s \<noteq> [])"
| "js_truthy (CellNumber x) = (x \<noteq> 0)"
| "js_truthy CellNaN = False"
| "js_truthy (CellBoolean b) = b"
| "js_truthy CellNull = False"

fun js_String :: "(rat \<Rightarrow> string) \<Rightarrow> cell_value \<Rightarrow> string" where
  "js_String number_toString (CellString s) = s"
| "js_String number_toString (CellNumber x) = number_toString x"
| "js_String number_toString CellNaN = ''NaN''"
| "js_String number_toString (CellBoolean b) = (if b then ''true'' else ''false'')"
| "js_String number_toString CellNull = ''null''"

text \<open>\<^verbatim>\<open>const cellValue = String(row[colIndex] || '')\<close>.\<close>

definition cellValue :: "(rat \<Rightarrow> string) \<Rightarrow> cell_value \<Rightarrow> string" where
  "cellValue number_toString v =
     (if js_truthy v then js_String number_toString v else js_String number_toString (CellString []))"

text \<open>The text drawn for a cell: cut to 15 characters and an ellipsis when longer.\<close>

definition drawn_text :: "string \<Rightarrow> string" where
  "drawn_text s = (if length s > 15 then substring s 0 15 @ ''...'' else s)"

text \<open>
  The column loop \<^verbatim>\<open>for (colIndex = 0; colIndex < row.length && colIndex < 8; colIndex++)\<close>,
  on the cells from \<open>colIndex\<close> on, with the running \<open>xPosition\<close> and its update
  \<^verbatim>\<open>xPosition += maxWidth\<close>. \<open>maxWidth\<close> is the same in every turn of the loop and is
  computed by the row loop below.
\<close>

fun row_commands ::
  "(rat \<Rightarrow> string) \<Rightarrow> rat \<Rightarrow> nat \<Rightarrow> cell_value list \<Rightarrow> nat \<Rightarrow> rat \<Rightarrow> pdf_command list" where
  "row_commands number_toString maxWidth yPosition [] colIndex xPosition = []"
| "row_commands number_toString maxWidth yPosition (v # vs) colIndex xPosition =
     (if colIndex < 8
      then Text (drawn_text (cellValue number_toString v)) xPosition yPosition
             # row_commands number_toString maxWidth yPosition vs (Suc colIndex)
                 (js_add xPosition maxWidth)
      else [])"

text \<open>
  The row loop, with \<open>margin = 10\<close> and \<open>lineHeight = 6\<close>: a new page when
  \<^verbatim>\<open>yPosition > pageHeight - margin - lineHeight\<close>, then the cells of the row with
  \<^verbatim>\<open>maxWidth = (pageWidth - 2 * margin) / Math.min(row.length, 8)\<close>, then the next line.
\<close>

fun rows_commands ::
  "(rat \<Rightarrow> string) \<Rightarrow> rat \<Rightarrow> rat \<Rightarrow> cell_value list list \<Rightarrow> nat \<Rightarrow> pdf_command list" where
  "rows_commands number_toString pageWidth pageHeight [] yPosition = []"
| "rows_commands number_toString pageWidth pageHeight (row # jsonData) yPosition =
     (let newPage = (js_sub (js_sub pageHeight 10) 6 < of_nat yPosition);
          y = (if newPage then 10 + 10 else yPosition);
          maxWidth = js_div (js_sub pageWidth (2 * 10)) (of_nat (min (length row) 8))
      in (if newPage then [AddPage] else [])
         @ row_commands number_toString maxWidth y row 0 10
         @ rows_commands number_toString pageWidth pageHeight jsonData (y + 6))"

text \<open>The document of one worksheet: the title, then the rows.\<close>

definition worksheet_pdf ::
  "(rat \<Rightarrow> string) \<Rightarrow> rat \<Rightarrow> rat \<Rightarrow> string \<Rightarrow> cell_value list list \<Rightarrow> pdf_command list" where
  "worksheet_pdf number_toString pageWidth pageHeight name jsonData =
     [SetFontSize 16, Text name 10 (10 + 10), SetFontSize 10]
     @ rows_commands number_toString pageWidth pageHeight jsonData (10 + 10 + 6 * 2)"

text \<open>
  \<^verbatim>\<open>`${worksheet.name.replace(/[\/\\:*?"<>|]/g, '_')}.pdf`\<close>: each of the nine characters
  becomes an underscore (\<open>0x5C\<close> is the backslash, \<open>0x22\<close> the double quote).
\<close>

definition pdf_fileName :: "string \<Rightarrow> string" where
  "pdf_fileName name =
     map (\<lambda>ch. if ch \<in> set (''/:*?<>|'' @ [CHR 0x5C, CHR 0x22]) then CHR ''_'' else ch) name
     @ ''.pdf''"

text \<open>\<^verbatim>\<open>zip.file(fileName, pdfBuffer)\<close>: an entry of the same name is replaced.\<close>

fun zip_file ::
  "(string \<times> pdf_command list) list \<Rightarrow> string \<Rightarrow> pdf_command list
     \<Rightarrow> (string \<times> pdf_command list) list" where
  "zip_file [] fileName buffer = [(fileName, buffer)]"
| "zip_file ((n, b) # entries) fileName buffer =
     (if n = fileName then (n, buffer) # entries else (n, b) # zip_file entries fileName buffer)"

text \<open>
  The loop of \<^verbatim>\<open>processWorksheets\<close> over the selected worksheets from index \<open>i\<close> on; the
  result is the archive and the values passed to \<^verbatim>\<open>onProgress\<close>.
\<close>

fun processWorksheets_loop ::
  "(sheet option \<Rightarrow> cell_value list list) \<Rightarrow> (rat \<Rightarrow> string) \<Rightarrow> rat \<Rightarrow> rat \<Rightarrow> workbook
     \<Rightarrow> bool \<Rightarrow> nat \<Rightarrow> worksheet list \<Rightarrow> nat
     \<Rightarrow> (string \<times> pdf_command list) list \<times> js_number list
     \<Rightarrow> (string \<times> pdf_command list) list \<times> js_number list" where
  "processWorksheets_loop sheet_to_json number_toString pageWidth pageHeight wb onProgress
     totalSheets [] i (zip', calls) = (zip', calls)"
| "processWorksheets_loop sheet_to_json number_toString pageWidth pageHeight wb onProgress
     totalSheets (worksheet # selected) i (zip', calls) =
     (let sheet = get_sheet (Sheets wb) (ws_name worksheet);
          jsonData = sheet_to_json sheet;
          pdfBuffer = worksheet_pdf number_toString pageWidth pageHeight (ws_name worksheet) jsonData;
          fileName = pdf_fileName (ws_name worksheet);
          progress = Math_round (js_mul_nat (js_div_nat (i + 1) totalSheets) 100)
      in processWorksheets_loop sheet_to_json number_toString pageWidth pageHeight wb onProgress
           totalSheets selected (Suc i)
           (zip_file zip' fileName pdfBuffer, if onProgress then calls @ [progress] else calls))"

definition processWorksheets ::
  "(sheet option \<Rightarrow> cell_value list list) \<Rightarrow> (rat \<Rightarrow> string) \<Rightarrow> rat \<Rightarrow> rat \<Rightarrow> workbook
     \<Rightarrow> worksheet list \<Rightarrow> bool \<Rightarrow> (string \<times> pdf_command list) list \<times> js_number list" where
  "processWorksheets sheet_to_json number_toString pageWidth pageHeight wb selectedWorksheets
     onProgress =
     processWorksheets_loop sheet_to_json number_toString pageWidth pageHeight wb onProgress
       (length selectedWorksheets) selectedWorksheets 0 ([], [])"

text \<open>The strings drawn by a document, in drawing order.\<close>

fun drawn_texts :: "pdf_command list \<Rightarrow> string list" where
  "drawn_texts [] = []"
| "drawn_texts (Text s x y # cmds) = s # drawn_texts cmds"
| "drawn_texts (c # cmds) = drawn_texts cmds"

subsection \<open>Rendered rows\<close>

lemma drawn_texts_append: "drawn_texts (a @ b) = drawn_texts a @ drawn_texts b"
  by (induction a rule: drawn_texts.induct) simp_all

lemma row_commands_texts:
  "drawn_texts (row_commands ns mw y row c x) =
     map (\<lambda>v. drawn_text (cellValue ns v)) (take (8 - c) row)"
proof (induction row arbitrary: c x)
  case Nil
  then show ?case by simp
next
  case (Cons v vs)
  show ?case
  proof (cases "c < 8")
    case True
    then obtain d where d: "8 - c = Suc d" and d': "8 - Suc c = d" by (cases "8 - c") auto
    with True Cons.IH [of "Suc c" "js_add x mw"] show ?thesis by simp
  next
    case False
    then show ?thesis by simp
  qed
qed

lemma row_commands_length:
  "length (row_commands ns mw y row c x) = min (length row) (8 - c)"
proof (induction row arbitrary: c x)
  case Nil
  then show ?case by simp
next
  case (Cons v vs)
  show ?case
  proof (cases "c < 8")
    case True
    then obtain d where d: "8 - c = Suc d" and d': "8 - Suc c = d" by (cases "8 - c") auto
    with True Cons.IH [of "Suc c" "js_add x mw"] show ?thesis by simp
  next
    case False
    then show ?thesis by simp
  qed
qed

lemma row_commands_nth:
  "i < length row \<Longrightarrow> c + i < 8 \<Longrightarrow>
     row_commands ns mw y row c x ! i =
       Text (drawn_text (cellValue ns (row ! i))) (((\<lambda>x. js_add x mw) ^^ i) x) y"
proof (induction row arbitrary: c x i)
  case Nil
  then show ?case by simp
next
  case (Cons v vs)
  show ?case
  proof (cases i)
    case 0
    with Cons.prems show ?thesis by simp
  next
    case (Suc j)
    with Cons.prems have "j < length vs" and "Suc c + j < 8" by simp_all
    moreover have "((\<lambda>x. js_add x mw) ^^ j) (js_add x mw) = js_add (((\<lambda>x. js_add x mw) ^^ j) x) mw"
      using funpow_swap1 [of "\<lambda>x. js_add x mw" j x] by simp
    ultimately show ?thesis
      using Cons.IH [of j "Suc c" "js_add x mw"] Suc Cons.prems by simp
  qed
qed

lemma rows_commands_texts:
  "drawn_texts (rows_commands ns pw ph jsonData y) =
     concat (map (\<lambda>row. map (\<lambda>v. drawn_text (cellValue ns v)) (take 8 row)) jsonData)"
proof (induction jsonData arbitrary: y)
  case Nil
  then show ?case by simp
next
  case (Cons row jsonData)
  show ?case
    using Cons.IH
    by (simp add: Let_def drawn_texts_append row_commands_texts)
qed

lemma worksheet_pdf_texts:
  "drawn_texts (worksheet_pdf ns pw ph name jsonData) =
     name # concat (map (\<lambda>row. map (\<lambda>v. drawn_text (cellValue ns v)) (take 8 row)) jsonData)"
  by (simp add: worksheet_pdf_def rows_commands_texts)

lemma set_zip_file: "set (zip_file z n b) \<subseteq> insert (n, b) (set z)"
  by (induction z n b rule: zip_file.induct) auto

lemma fst_zip_file: "fst ` set (zip_file z n b) = insert n (fst ` set z)"
  by (induction z n b rule: zip_file.induct) auto

lemma processWorksheets_loop_entries:
  "(fileName, doc) \<in> set (fst (processWorksheets_loop stj ns pw ph wb cb tot selected i (z, calls)))
   \<Longrightarrow> (fileName, doc) \<in> set z
     \<or> (\<exists>w \<in> set selected. fileName = pdf_fileName (ws_name w)
          \<and> doc = worksheet_pdf ns pw ph (ws_name w) (stj (get_sheet (Sheets wb) (ws_name w))))"
proof (induction selected arbitrary: i z calls)
  case Nil
  then show ?case by simp
next
  case (Cons w selected)
  let ?doc = "worksheet_pdf ns pw ph (ws_name w) (stj (get_sheet (Sheets wb) (ws_name w)))"
  from Cons.prems
  have "(fileName, doc) \<in> set (fst (processWorksheets_loop stj ns pw ph wb cb tot selected (Suc i)
      (zip_file z (pdf_fileName (ws_name w)) ?doc,
       if cb then calls @ [Math_round (js_mul_nat (js_div_nat (Suc i) tot) 100)] else calls)))"
    by (simp add: Let_def split del: if_split)
  from Cons.IH [OF this]
  show ?case using set_zip_file [of z "pdf_fileName (ws_name w)" ?doc] by auto
qed

lemma processWorksheets_loop_names:
  "fst ` set (fst (processWorksheets_loop stj ns pw ph wb cb tot selected i (z, calls))) =
     fst ` set z \<union> (\<lambda>w. pdf_fileName (ws_name w)) ` set selected"
proof (induction selected arbitrary: i z calls)
  case Nil
  then show ?case by simp
next
  case (Cons w selected)
  show ?case
    by (auto simp: Let_def Cons.IH fst_zip_file)
qed

text \<open>
  Column positions on an A4 page, whose width jsPDF reports as the double
  \<open>210.0015555555555\<close>, for a row of three cells: the column width is the double
  \<open>63.33385185185184\<close> and the cells are drawn at \<open>10\<close>, \<open>73.33385185185185\<close> and
  \<open>136.6677037037037\<close>. The last position is not the exact sum of the margin and two
  column widths: each addition rounds.
\<close>

lemma a4_three_columns:
  "js_div (js_sub (3694386434950095 / 17592186044416) (2 * 10)) (of_nat (min 3 8))
     = 8913447237498067 / 140737488355328"
  "js_add 10 (8913447237498067 / 140737488355328) = 2580205530262837 / 35184372088832"
  "js_add (2580205530262837 / 35184372088832) (8913447237498067 / 140737488355328)
     = 2404283669818677 / 17592186044416"
  "(2404283669818677 / 17592186044416 :: rat) \<noteq> 10 + 2 * (8913447237498067 / 140737488355328)"
  by code_simp+

lemma wide_xPosition: "((\<lambda>x. js_add x (190 / 8)) ^^ 7) 10 = 705 / 4"
proof -
  have "js_add (js_add (js_add (js_add (js_add (js_add (js_add 10 (190 / 8)) (190 / 8))
      (190 / 8)) (190 / 8)) (190 / 8)) (190 / 8)) (190 / 8) = 705 / 4"
    by code_simp
  moreover have "(7::nat) = Suc (Suc (Suc (Suc (Suc (Suc (Suc 0))))))"
    by simp
  ultimately show ?thesis
    by (simp only: funpow.simps o_apply id_apply)
qed

lemma falsy_xPosition: "((\<lambda>x. js_add x 1) ^^ 2) 10 = 12"
proof -
  have "js_add (js_add 10 1) 1 = 12"
    by code_simp
  moreover have "(2::nat) = Suc (Suc 0)"
    by simp
  ultimately show ?thesis
    by (simp only: funpow.simps o_apply id_apply)
qed

text \<open>
  Data for the examples: stand-ins for the two library functions (the rows a sheet
  carries, and the digits of a non-negative whole number), and a sheet with one row of
  ten columns.
\<close>

definition example_sheet_to_json :: "sheet option \<Rightarrow> cell_value list list" where
  "example_sheet_to_json s = (case s of None \<Rightarrow> [] | Some sh \<Rightarrow> rows sh)"

definition example_number_toString :: "rat \<Rightarrow> string" where
  "example_number_toString x = toString_nat (nat \<lfloor>x\<rfloor>)"

definition wide_row :: "cell_value list" where
  "wide_row = map CellString [''c0'', ''c1'', ''c2'', ''c3'', ''c4'', ''c5'', ''c6'', ''c7'', ''c8'', ''c9'']"

definition wide_workbook :: workbook where
  "wide_workbook =
     \<lparr>SheetNames = [''Wide''],
      Sheets = [(''Wide'', Some \<lparr>ref = Some ''A1:J1'', rows = [wide_row]\<rparr>)]\<rparr>"

definition wide_worksheet :: worksheet where
  "wide_worksheet =
     \<lparr>ws_name = ''Wide'', ws_index = 0, rowCount = 1, columnCount = 10, hasData = True\<rparr>"

lemma wide_archive:
  "fst (processWorksheets example_sheet_to_json example_number_toString 210 297 wide_workbook
         [wide_worksheet] True)
     = [(''Wide.pdf'', worksheet_pdf example_number_toString 210 297 ''Wide'' [wide_row])]"
  by (simp add: processWorksheets_def wide_worksheet_def wide_workbook_def get_sheet_def
      example_sheet_to_json_def pdf_fileName_def Let_def)

text \<open>
  Claim C9. Every entry of the archive is the document of a selected worksheet, and every
  selected worksheet has an entry. The strings a document draws are the worksheet's name
  followed, row after row in the order of the extracted rows, by the texts of the first
  eight cells of the row in column order. A row draws \<open>min (length row) 8\<close> texts, the
  one at position \<open>i\<close> being the text of the cell in column \<open>i\<close>, drawn on the row's line
  at the \<open>xPosition\<close> reached after \<open>i\<close> additions of the column width: no cell of
  column 8 or beyond is drawn.
\<close>

theorem processWorksheets_first_8_columns:
  "((fileName, doc) \<in> set (fst (processWorksheets stj ns pw ph wb selected cb)) \<longrightarrow>
      (\<exists>w \<in> set selected. fileName = pdf_fileName (ws_name w)
         \<and> doc = worksheet_pdf ns pw ph (ws_name w) (stj (get_sheet (Sheets wb) (ws_name w)))))
   \<and> fst ` set (fst (processWorksheets stj ns pw ph wb selected cb)) =
       (\<lambda>w. pdf_fileName (ws_name w)) ` set selected
   \<and> drawn_texts (worksheet_pdf ns pw ph name jsonData) =
       name # concat (map (\<lambda>row. map (\<lambda>v. drawn_text (cellValue ns v)) (take 8 row)) jsonData)
   \<and> length (row_commands ns mw y row 0 x) = min (length row) 8
   \<and> (i < min (length row) 8 \<longrightarrow>
        row_commands ns mw y row 0 x ! i =
          Text (drawn_text (cellValue ns (row ! i))) (((\<lambda>x. js_add x mw) ^^ i) x) y)"
proof (intro conjI impI)
  assume "(fileName, doc) \<in> set (fst (processWorksheets stj ns pw ph wb selected cb))"
  then show "\<exists>w \<in> set selected. fileName = pdf_fileName (ws_name w)
         \<and> doc = worksheet_pdf ns pw ph (ws_name w) (stj (get_sheet (Sheets wb) (ws_name w)))"
    unfolding processWorksheets_def
    by (auto dest: processWorksheets_loop_entries)
next
  show "fst ` set (fst (processWorksheets stj ns pw ph wb selected cb)) =
       (\<lambda>w. pdf_fileName (ws_name w)) ` set selected"
    by (simp add: processWorksheets_def processWorksheets_loop_names)
next
  show "drawn_texts (worksheet_pdf ns pw ph name jsonData) =
       name # concat (map (\<lambda>row. map (\<lambda>v. drawn_text (cellValue ns v)) (take 8 row)) jsonData)"
    by (rule worksheet_pdf_texts)
next
  show "length (row_commands ns mw y row 0 x) = min (length row) 8"
    by (simp add: row_commands_length)
next
  assume "i < min (length row) 8"
  then show "row_commands ns mw y row 0 x ! i =
          Text (drawn_text (cellValue ns (row ! i))) (((\<lambda>x. js_add x mw) ^^ i) x) y"
    by (intro row_commands_nth) simp_all
qed

theorem processWorksheets_first_8_columns_witness:
  "(''Wide.pdf'', worksheet_pdf example_number_toString 210 297 ''Wide'' [wide_row])
     \<in> set (fst (processWorksheets example_sheet_to_json example_number_toString 210 297
           wide_workbook [wide_worksheet] True))
   \<and> length wide_row = 10
   \<and> drawn_texts (worksheet_pdf example_number_toString 210 297 ''Wide'' [wide_row])
       = [''Wide'', ''c0'', ''c1'', ''c2'', ''c3'', ''c4'', ''c5'', ''c6'', ''c7'']
   \<and> length (row_commands example_number_toString (190 / 8) 32 wide_row 0 10) = 8
   \<and> row_commands example_number_toString (190 / 8) 32 wide_row 0 10 ! 7
       = Text ''c7'' (705 / 4) 32"
proof -
  let ?doc = "worksheet_pdf example_number_toString 210 297 ''Wide'' [wide_row]"
  have entry: "(''Wide.pdf'', ?doc)
     \<in> set (fst (processWorksheets example_sheet_to_json example_number_toString 210 297
           wide_workbook [wide_worksheet] True))"
    by (simp add: wide_archive)
  have len: "length wide_row = 10" by (simp add: wide_row_def)
  then have i: "7 < min (length wide_row) 8" by simp
  note inst = processWorksheets_first_8_columns
    [of "''Wide.pdf''" ?doc example_sheet_to_json example_number_toString 210 297 wide_workbook
        "[wide_worksheet]" True "''Wide''" "[wide_row]" "190 / 8" 32 wide_row 10 7]
  from inst have texts: "drawn_texts ?doc = ''Wide''
      # concat (map (\<lambda>row. map (\<lambda>v. drawn_text (cellValue example_number_toString v)) (take 8 row))
          [wide_row])"
    and n: "length (row_commands example_number_toString (190 / 8) 32 wide_row 0 10)
      = min (length wide_row) 8"
    by blast+
  from inst i have "row_commands example_number_toString (190 / 8) 32 wide_row 0 10 ! 7
      = Text (drawn_text (cellValue example_number_toString (wide_row ! 7)))
          (((\<lambda>x. js_add x (190 / 8)) ^^ 7) 10) 32"
    by blast
  then have at7: "row_commands example_number_toString (190 / 8) 32 wide_row 0 10 ! 7
      = Text (drawn_text (cellValue example_number_toString (wide_row ! 7))) (705 / 4) 32"
    unfolding wide_xPosition .
  from texts have t: "drawn_texts ?doc
      = [''Wide'', ''c0'', ''c1'', ''c2'', ''c3'', ''c4'', ''c5'', ''c6'', ''c7'']"
    by (simp add: wide_row_def cellValue_def drawn_text_def)
  from n len have n8: "length (row_commands example_number_toString (190 / 8) 32 wide_row 0 10) = 8"
    by simp
  from at7 have c7: "row_commands example_number_toString (190 / 8) 32 wide_row 0 10 ! 7
       = Text ''c7'' (705 / 4) 32"
    by (simp add: wide_row_def cellValue_def drawn_text_def)
  from entry len t n8 c7 show ?thesis by (intro conjI)
qed

text \<open>
  Claim C10. \<^verbatim>\<open>String(row[colIndex] || '')\<close> is the empty string for every falsy cell
  value: for the number 0 and for \<open>false\<close> as much as for a blank cell, so such a cell is
  drawn as the empty text and not as \<^verbatim>\<open>0\<close> or \<^verbatim>\<open>false\<close>.
\<close>

theorem cellValue_falsy_is_empty:
  "cellValue ns (CellNumber 0) = []
   \<and> cellValue ns (CellBoolean False) = []
   \<and> cellValue ns (CellString []) = []
   \<and> (\<not> js_truthy v \<longrightarrow> cellValue ns v = [] \<and> drawn_text (cellValue ns v) = [])
   \<and> (i < min (length row) 8 \<and> \<not> js_truthy (row ! i) \<longrightarrow>
        row_commands ns mw y row 0 x ! i = Text [] (((\<lambda>x. js_add x mw) ^^ i) x) y)"
proof -
  have falsy: "cellValue ns v = [] \<and> drawn_text (cellValue ns v) = []" if "\<not> js_truthy v" for v
    using that by (simp add: cellValue_def drawn_text_def)
  have "row_commands ns mw y row 0 x ! i = Text [] (((\<lambda>x. js_add x mw) ^^ i) x) y"
    if "i < min (length row) 8 \<and> \<not> js_truthy (row ! i)"
  proof -
    from that have "row_commands ns mw y row 0 x ! i =
        Text (drawn_text (cellValue ns (row ! i))) (((\<lambda>x. js_add x mw) ^^ i) x) y"
      by (intro row_commands_nth) simp_all
    with that falsy [of "row ! i"] show ?thesis by (simp add: drawn_text_def)
  qed
  with falsy falsy [of "CellNumber 0"] falsy [of "CellBoolean False"] falsy [of "CellString []"]
  show ?thesis by simp
qed

theorem cellValue_falsy_is_empty_witness:
  "\<not> js_truthy (CellBoolean False)
   \<and> cellValue example_number_toString (CellBoolean False) = []
   \<and> cellValue example_number_toString (CellNumber 0) = []
   \<and> 2 < min (length [CellNumber 0, CellString ''x'', CellBoolean False]) 8
   \<and> row_commands example_number_toString 1 32
        [CellNumber 0, CellString ''x'', CellBoolean False] 0 10 ! 2 = Text [] 12 32"
proof -
  let ?row = "[CellNumber 0, CellString ''x'', CellBoolean False]"
  have f: "\<not> js_truthy (CellBoolean False)" by simp
  have i: "2 < min (length ?row) 8 \<and> \<not> js_truthy (?row ! 2)" by simp
  note inst = cellValue_falsy_is_empty
    [of example_number_toString "CellBoolean False" 2 ?row 1 32 10]
  from inst f have a: "cellValue example_number_toString (CellBoolean False) = []"
    and b: "cellValue example_number_toString (CellNumber 0) = []"
    by blast+
  from inst i have "row_commands example_number_toString 1 32 ?row 0 10 ! 2
      = Text [] (((\<lambda>x. js_add x 1) ^^ 2) 10) 32"
    by blast
  then have c: "row_commands example_number_toString 1 32 ?row 0 10 ! 2 = Text [] 12 32"
    unfolding falsy_xPosition .
  from f a b i c show ?thesis by (intro conjI) simp_all
qed

end
